theory Spec2Isabelle
  imports Complex_Main "HOL-Library.Sublist"
begin

section \<open>The person tracker of \<open>lib/tracker.ts\<close>\<close>

text \<open>
  The tracker keeps a list of tracked persons and an id counter.  Its numbers are
  JavaScript numbers, that is IEEE 754 doubles.  Coordinates, sizes and scores are
  finite doubles, each modelled by the real number it denotes, and every arithmetic
  operation of the source rounds its exact result to the nearest double (see
  \<open>rnd\<close> below).  The counters \<open>nextId\<close> and \<open>age\<close> and the indices are modelled
  as natural numbers; a JavaScript number counts exactly up to \<open>2^53\<close>.

  A bounding box is a four-element array \<open>[x, y, width, height]\<close>.  The source never
  copies such an array: \<open>bbox: d.bbox\<close> and \<open>track.bbox = det.bbox\<close> store a
  reference to the detection's array, and the ageing loop writes into the array in
  place.  The arrays therefore live in an explicit store, and detections and tracks
  hold addresses.  Velocity arrays are created afresh by every assignment and are
  never written in place, so a velocity is a plain pair.  Track objects are created
  by \<open>update\<close> and each of them sits once in the list, so the list holds them by
  value.

  The fields keep their names, except where a name is taken: \<open>id\<close> of a track is
  \<open>pid\<close>, \<open>score\<close> of a cost entry is \<open>cscore\<close>, and the fields of a detection
  carry the prefix \<open>d_\<close>.
\<close>

subsection \<open>Numbers\<close>

text \<open>
  A finite double is \<open>m * 2^j\<close> with an integer \<open>m\<close> of at most 53 bits and
  \<open>j \<ge> - 1074\<close>.  A real \<open>x\<close> with \<open>2^e \<le> \<bar>x\<bar> < 2^(e + 1)\<close> lies between two
  neighbouring doubles that are multiples of \<open>2^(e - 52)\<close>; below \<open>2^(- 1022)\<close> (the
  subnormal range) the spacing stays \<open>2^(- 1074)\<close>.  \<open>rnd x\<close> is the nearest of
  them, the one with the even multiple when \<open>x\<close> is half way: the rounding of every
  operation of the source.  \<open>fadd\<close>, \<open>fsub\<close>, \<open>fmul\<close> and \<open>fdiv\<close> are the operators
  \<open>+\<close>, \<open>-\<close>, \<open>*\<close> and \<open>/\<close> of the source; \<open>fpow2 x\<close> is \<open>x ** 2\<close> and \<open>fsqrt\<close>
  is \<open>Math.sqrt\<close>, both taken as correctly rounded.  \<open>Math.max\<close>, \<open>Math.min\<close> and
  the comparisons are exact.  A decimal literal of the source denotes the double
  nearest to it: \<open>0.6\<close> is \<open>rnd (6 / 10)\<close>.  Results of a magnitude beyond the largest
  double (\<open>Infinity\<close>) and \<open>NaN\<close> are outside this model.
\<close>

definition round_even :: "real \<Rightarrow> int" where
  "round_even q =
     (let f = \<lfloor>q\<rfloor>; r = q - of_int f
      in if r < 1 / 2 then f else if r > 1 / 2 then f + 1 else if even f then f else f + 1)"

definition expo :: "real \<Rightarrow> int" where
  "expo x = max \<lfloor>log 2 \<bar>x\<bar>\<rfloor> (- 1022)"

definition rnd :: "real \<Rightarrow> real" where
  "rnd x = (if x = 0 then 0
            else of_int (round_even (x / 2 powi (expo x - 52))) * 2 powi (expo x - 52))"

definition fadd :: "real \<Rightarrow> real \<Rightarrow> real" where
  "fadd x y = rnd (x + y)"

definition fsub :: "real \<Rightarrow> real \<Rightarrow> real" where
  "fsub x y = rnd (x - y)"

definition fmul :: "real \<Rightarrow> real \<Rightarrow> real" where
  "fmul x y = rnd (x * y)"

definition fdiv :: "real \<Rightarrow> real \<Rightarrow> real" where
  "fdiv x y = rnd (x / y)"

definition fpow2 :: "real \<Rightarrow> real" where
  "fpow2 x = rnd (x\<^sup>2)"

definition fsqrt :: "real \<Rightarrow> real" where
  "fsqrt x = rnd (sqrt x)"

subsection \<open>Data\<close>

datatype box = Box (b0: real) (b1: real) (b2: real) (b3: real)

type_synonym addr = nat
type_synonym heap = "addr \<Rightarrow> box"

record Detection =
  d_id :: int
  d_bbox :: addr
  d_score :: real
  d_class :: string

record TrackedPerson =
  pid :: nat
  bbox :: addr
  score :: real
  age :: nat
  velocity :: "real \<times> real"

record cost =
  trackIdx :: nat
  detIdx :: nat
  cscore :: real

record PersonTracker =
  tracked :: "TrackedPerson list"
  nextId :: nat

definition new_PersonTracker :: PersonTracker where
  "new_PersonTracker = \<lparr>tracked = [], nextId = 1\<rparr>"

definition iouThreshold :: real where
  "iouThreshold = rnd (2 / 10)"

definition maxAge :: nat where
  "maxAge = 15"

subsection \<open>Geometry\<close>

definition iou :: "box \<Rightarrow> box \<Rightarrow> real" where
  "iou a b =
     (let x1 = max (b0 a) (b0 b);
          y1 = max (b1 a) (b1 b);
          x2 = min (fadd (b0 a) (b2 a)) (fadd (b0 b) (b2 b));
          y2 = min (fadd (b1 a) (b3 a)) (fadd (b1 b) (b3 b));
          intersection = fmul (max 0 (fsub x2 x1)) (max 0 (fsub y2 y1));
          areaA = fmul (b2 a) (b3 a);
          areaB = fmul (b2 b) (b3 b);
          union = fsub (fadd areaA areaB) intersection
      in if union > 0 then fdiv intersection union else 0)"

definition centerDistance :: "box \<Rightarrow> box \<Rightarrow> real" where
  "centerDistance a b =
     (let cx1 = fadd (b0 a) (fdiv (b2 a) 2);
          cy1 = fadd (b1 a) (fdiv (b3 a) 2);
          cx2 = fadd (b0 b) (fdiv (b2 b) 2);
          cy2 = fadd (b1 b) (fdiv (b3 b) 2)
      in fsqrt (fadd (fpow2 (fsub cx1 cx2)) (fpow2 (fsub cy1 cy2))))"

subsection \<open>The update step\<close>

text \<open>The predicted rectangle of a track: a local array, never stored.\<close>

definition predicted_box :: "heap \<Rightarrow> TrackedPerson \<Rightarrow> box" where
  "predicted_box h t =
     Box (fadd (b0 (h (bbox t))) (fst (velocity t)))
         (fadd (b1 (h (bbox t))) (snd (velocity t)))
         (b2 (h (bbox t)))
         (b3 (h (bbox t)))"

text \<open>The body of the inner loop of the cost matrix: the combined score of a pair.\<close>

definition combinedScore :: "box \<Rightarrow> box \<Rightarrow> real" where
  "combinedScore predicted db =
     (let iouScore = iou predicted db;
          dist = centerDistance predicted db;
          maxDim = max (max (b2 predicted) (b3 predicted)) 100;
          distScore = max 0 (fsub 1 (fdiv dist (fmul maxDim 2)))
      in fadd (fmul iouScore (rnd (6 / 10))) (fmul distScore (rnd (4 / 10))))"

text \<open>The two nested loops that fill \<open>costs\<close>, tracks outside, detections inside.\<close>

definition build_costs :: "heap \<Rightarrow> TrackedPerson list \<Rightarrow> Detection list \<Rightarrow> cost list" where
  "build_costs h ts ds =
     concat (map (\<lambda>ti.
       let predicted = predicted_box h (ts ! ti) in
       concat (map (\<lambda>di.
         let c = combinedScore predicted (h (d_bbox (ds ! di))) in
         if c > rnd (1 / 10) then [\<lparr>trackIdx = ti, detIdx = di, cscore = c\<rparr>] else [])
         [0..<length ds]))
       [0..<length ts])"

text \<open>
  \<open>costs.sort((a, b) => b.score - a.score)\<close>: the sort of an array is stable
  (ECMAScript 2019), and the comparator orders by descending score: the difference
  of two doubles rounds to a number of the sign of the exact difference (lemma
  \<open>comparator_sign\<close>).  So the result is the stable sort on the negated score.
\<close>

definition sort_costs :: "cost list \<Rightarrow> cost list" where
  "sort_costs cs = sort_key (\<lambda>c. - cscore c) cs"

text \<open>
  The greedy loop over the sorted pairs.  It carries the track list and the two index
  sets \<open>matched\<close> and \<open>matchedDetections\<close>.  \<open>apply_match\<close> is the body that
  commits a pair: the four assignments to the track.  The store is only read here: the
  assignment \<open>track.bbox = det.bbox\<close> changes the reference held by the track.
  The indices of a cost entry come from the two loops above, so they are within the
  two lists.
\<close>

definition apply_match :: "heap \<Rightarrow> TrackedPerson \<Rightarrow> Detection \<Rightarrow> TrackedPerson" where
  "apply_match h track det =
     track\<lparr>velocity := (fsub (b0 (h (d_bbox det))) (b0 (h (bbox track))),
                          fsub (b1 (h (d_bbox det))) (b1 (h (bbox track)))),
             bbox := d_bbox det,
             score := d_score det,
             age := 0\<rparr>"

fun greedy ::
  "heap \<Rightarrow> Detection list \<Rightarrow> cost list \<Rightarrow> TrackedPerson list \<Rightarrow> nat set \<Rightarrow> nat set
     \<Rightarrow> TrackedPerson list \<times> nat set \<times> nat set" where
  "greedy h ds [] ts matched matchedDetections = (ts, matched, matchedDetections)"
| "greedy h ds (c # cs) ts matched matchedDetections =
     (if trackIdx c \<in> matched \<or> detIdx c \<in> matchedDetections
      then greedy h ds cs ts matched matchedDetections
      else
        let det = ds ! detIdx c;
            track = ts ! trackIdx c
        in greedy h ds cs (ts[trackIdx c := apply_match h track det])
             (insert (trackIdx c) matched) (insert (detIdx c) matchedDetections))"

text \<open>
  The ageing loop.  \<open>bbox[0] += velocity[0]\<close> and \<open>bbox[1] += velocity[1]\<close> write
  into the array the track refers to, whoever else refers to it.
\<close>

definition set0 :: "heap \<Rightarrow> addr \<Rightarrow> real \<Rightarrow> heap" where
  "set0 h a v = h(a := Box v (b1 (h a)) (b2 (h a)) (b3 (h a)))"

definition set1 :: "heap \<Rightarrow> addr \<Rightarrow> real \<Rightarrow> heap" where
  "set1 h a v = h(a := Box (b0 (h a)) v (b2 (h a)) (b3 (h a)))"

fun age_unmatched ::
  "nat set \<Rightarrow> nat list \<Rightarrow> TrackedPerson list \<Rightarrow> heap \<Rightarrow> TrackedPerson list \<times> heap" where
  "age_unmatched matched [] ts h = (ts, h)"
| "age_unmatched matched (ti # tis) ts h =
     (if ti \<notin> matched
      then
        let t = ts ! ti;
            ts' = ts[ti := t\<lparr>age := age t + 1\<rparr>];
            h1 = set0 h (bbox t) (fadd (b0 (h (bbox t))) (fst (velocity t)));
            h2 = set1 h1 (bbox t) (fadd (b1 (h1 (bbox t))) (snd (velocity t)))
        in age_unmatched matched tis ts' h2
      else age_unmatched matched tis ts h)"

text \<open>The loop that adds a new track for every detection left unmatched.\<close>

definition new_track :: "nat \<Rightarrow> Detection \<Rightarrow> TrackedPerson" where
  "new_track n d = \<lparr>pid = n, bbox = d_bbox d, score = d_score d, age = 0, velocity = (0, 0)\<rparr>"

fun spawn ::
  "Detection list \<Rightarrow> nat set \<Rightarrow> nat list \<Rightarrow> TrackedPerson list \<Rightarrow> nat
     \<Rightarrow> TrackedPerson list \<times> nat" where
  "spawn ds matchedDetections [] ts n = (ts, n)"
| "spawn ds matchedDetections (di # dis) ts n =
     (if di \<notin> matchedDetections
      then spawn ds matchedDetections dis (ts @ [new_track n (ds ! di)]) (n + 1)
      else spawn ds matchedDetections dis ts n)"

text \<open>The first branch of \<open>update\<close>: one track per detection, \<open>id: this.nextId++\<close>.\<close>

fun bootstrap :: "nat \<Rightarrow> Detection list \<Rightarrow> TrackedPerson list \<times> nat" where
  "bootstrap n [] = ([], n)"
| "bootstrap n (d # ds) =
     (let (ts, n') = bootstrap (n + 1) ds in (new_track n d # ts, n'))"

definition personDetections :: "Detection list \<Rightarrow> Detection list" where
  "personDetections detections = filter (\<lambda>d. d_class d = ''person'') detections"

definition update :: "heap \<Rightarrow> PersonTracker \<Rightarrow> Detection list \<Rightarrow> PersonTracker \<times> heap" where
  "update h s detections =
     (let ds = personDetections detections in
      if length (tracked s) = 0
      then (let (ts, n) = bootstrap (nextId s) ds in (\<lparr>tracked = ts, nextId = n\<rparr>, h))
      else
        (let costs = build_costs h (tracked s) ds;
             sorted = sort_costs costs;
             (ts1, matched, matchedDetections) = greedy h ds sorted (tracked s) {} {};
             (ts2, h') = age_unmatched matched [0..<length ts1] ts1 h;
             ts3 = filter (\<lambda>t. age t < maxAge) ts2;
             (ts4, n) = spawn ds matchedDetections [0..<length ds] ts3 (nextId s)
         in (\<lparr>tracked = ts4, nextId = n\<rparr>, h')))"

definition reset :: "PersonTracker \<Rightarrow> PersonTracker" where
  "reset s = \<lparr>tracked = [], nextId = 1\<rparr>"

definition getTracked :: "PersonTracker \<Rightarrow> TrackedPerson list" where
  "getTracked s = tracked s"

subsection \<open>The point query\<close>

text \<open>
  The loop of \<open>findPersonAtPoint\<close> with its early return.  With a canvas width or
  height of zero the division gives an infinity or NaN in the source, the converted
  coordinate is not a finite number, and no comparison chain against a box succeeds:
  the function returns null.
\<close>

fun scan :: "heap \<Rightarrow> real \<Rightarrow> real \<Rightarrow> TrackedPerson list \<Rightarrow> TrackedPerson option" where
  "scan h vx vy [] = None"
| "scan h vx vy (person # persons) =
     (let bx = b0 (h (bbox person));
          by' = b1 (h (bbox person));
          bw = b2 (h (bbox person));
          bh = b3 (h (bbox person))
      in if vx \<ge> bx \<and> vx \<le> fadd bx bw \<and> vy \<ge> by' \<and> vy \<le> fadd by' bh
         then Some person
         else scan h vx vy persons)"

definition findPersonAtPoint ::
  "heap \<Rightarrow> TrackedPerson list \<Rightarrow> real \<Rightarrow> real \<Rightarrow> real \<Rightarrow> real \<Rightarrow> real \<Rightarrow> real
     \<Rightarrow> TrackedPerson option" where
  "findPersonAtPoint h persons x y canvasWidth canvasHeight videoWidth videoHeight =
     (if canvasWidth = 0 \<or> canvasHeight = 0 then None
      else
        let scaleX = fdiv videoWidth canvasWidth;
            scaleY = fdiv videoHeight canvasHeight;
            vx = fmul x scaleX;
            vy = fmul y scaleY
        in scan h vx vy persons)"

subsection \<open>Notions used by the theorems\<close>

text \<open>
  The state of the second branch of \<open>update\<close> after the greedy loop, and after the
  ageing loop; \<open>ts\<close> are the tracks at the start of the call and \<open>ds\<close> the person
  detections.
\<close>

definition match_phase ::
  "heap \<Rightarrow> TrackedPerson list \<Rightarrow> Detection list \<Rightarrow> TrackedPerson list \<times> nat set \<times> nat set" where
  "match_phase h ts ds = greedy h ds (sort_costs (build_costs h ts ds)) ts {} {}"

definition age_phase ::
  "heap \<Rightarrow> TrackedPerson list \<Rightarrow> Detection list \<Rightarrow> TrackedPerson list \<times> heap" where
  "age_phase h ts ds =
     (let (ts1, matched, matchedDetections) = match_phase h ts ds
      in age_unmatched matched [0..<length ts1] ts1 h)"

definition aged_tracks :: "heap \<Rightarrow> TrackedPerson list \<Rightarrow> Detection list \<Rightarrow> TrackedPerson list" where
  "aged_tracks h ts ds = fst (age_phase h ts ds)"

text \<open>
  The pairs the greedy loop commits, in the order in which it commits them: the pairs
  at which the loop body does not \<open>continue\<close>.
\<close>

fun commits :: "cost list \<Rightarrow> nat set \<Rightarrow> nat set \<Rightarrow> cost list" where
  "commits [] matched matchedDetections = []"
| "commits (c # cs) matched matchedDetections =
     (if trackIdx c \<in> matched \<or> detIdx c \<in> matchedDetections
      then commits cs matched matchedDetections
      else c # commits cs (insert (trackIdx c) matched) (insert (detIdx c) matchedDetections))"

definition committed :: "heap \<Rightarrow> TrackedPerson list \<Rightarrow> Detection list \<Rightarrow> cost list" where
  "committed h ts ds = commits (sort_costs (build_costs h ts ds)) {} {}"

text \<open>The detections that no committed pair mentions, in the order of the detections.\<close>

definition unmatched_detections ::
  "heap \<Rightarrow> TrackedPerson list \<Rightarrow> Detection list \<Rightarrow> Detection list" where
  "unmatched_detections h ts ds =
     map ((!) ds) (filter (\<lambda>di. di \<notin> detIdx ` set (committed h ts ds)) [0..<length ds])"

text \<open>
  The positions of the tracks that no committed pair mentions and that refer to the
  array at the address \<open>a\<close>: the tracks whose ageing writes into that array.
\<close>

definition sharing_unmatched ::
  "heap \<Rightarrow> TrackedPerson list \<Rightarrow> Detection list \<Rightarrow> addr \<Rightarrow> nat list" where
  "sharing_unmatched h ts ds a =
     filter (\<lambda>i. i \<notin> trackIdx ` set (committed h ts ds) \<and> bbox (ts ! i) = a) [0..<length ts]"

text \<open>The order in which the two loops enumerate pairs: by track, then by detection.\<close>

definition enumerated_before :: "cost \<Rightarrow> cost \<Rightarrow> bool" where
  "enumerated_before a b \<longleftrightarrow>
     trackIdx a < trackIdx b \<or> (trackIdx a = trackIdx b \<and> detIdx a < detIdx b)"

definition walked_before :: "cost \<Rightarrow> cost \<Rightarrow> bool" where
  "walked_before a b \<longleftrightarrow>
     cscore a > cscore b \<or> (cscore a = cscore b \<and> enumerated_before a b)"

text \<open>
  The area of the intersection and of the union of two boxes as \<open>iou\<close> computes them,
  and boxes that do not overlap: one ends, by its computed edge, where the other
  begins or before.
\<close>

definition inter_area :: "box \<Rightarrow> box \<Rightarrow> real" where
  "inter_area a b =
     fmul (max 0 (fsub (min (fadd (b0 a) (b2 a)) (fadd (b0 b) (b2 b))) (max (b0 a) (b0 b))))
          (max 0 (fsub (min (fadd (b1 a) (b3 a)) (fadd (b1 b) (b3 b))) (max (b1 a) (b1 b))))"

definition union_area :: "box \<Rightarrow> box \<Rightarrow> real" where
  "union_area a b = fsub (fadd (fmul (b2 a) (b3 a)) (fmul (b2 b) (b3 b))) (inter_area a b)"

definition disjoint_boxes :: "box \<Rightarrow> box \<Rightarrow> bool" where
  "disjoint_boxes a b \<longleftrightarrow>
     fadd (b0 a) (b2 a) \<le> b0 b \<or> fadd (b0 b) (b2 b) \<le> b0 a
     \<or> fadd (b1 a) (b3 a) \<le> b1 b \<or> fadd (b1 b) (b3 b) \<le> b1 a"

text \<open>
  The scores in the words of the specification: the intersection over union, which is
  0 when the union is 0; the proximity of the centres; and the combined score of a
  track and a detection, taken between the track's box moved by its velocity and the
  detection's box.
\<close>

definition spec_iou :: "box \<Rightarrow> box \<Rightarrow> real" where
  "spec_iou a b =
     (if union_area a b = 0 then 0 else fdiv (inter_area a b) (union_area a b))"

definition spec_proximity :: "box \<Rightarrow> box \<Rightarrow> real" where
  "spec_proximity p d =
     (let dist = fsqrt (fadd (fpow2 (fsub (fadd (b0 p) (fdiv (b2 p) 2)) (fadd (b0 d) (fdiv (b2 d) 2))))
                             (fpow2 (fsub (fadd (b1 p) (fdiv (b3 p) 2)) (fadd (b1 d) (fdiv (b3 d) 2)))))
      in max 0 (fsub 1 (fdiv dist (fmul (max (max (b2 p) (b3 p)) 100) 2))))"

definition spec_score :: "heap \<Rightarrow> TrackedPerson \<Rightarrow> Detection \<Rightarrow> real" where
  "spec_score h t d =
     (let p = Box (fadd (b0 (h (bbox t))) (fst (velocity t)))
                  (fadd (b1 (h (bbox t))) (snd (velocity t)))
                  (b2 (h (bbox t))) (b3 (h (bbox t)))
      in fadd (fmul (rnd (6 / 10)) (spec_iou p (h (d_bbox d))))
              (fmul (rnd (4 / 10)) (spec_proximity p (h (d_bbox d)))))"

text \<open>The score that the loops of \<open>update\<close> compute for a track and a detection.\<close>

definition pair_score :: "heap \<Rightarrow> TrackedPerson \<Rightarrow> Detection \<Rightarrow> real" where
  "pair_score h t d = combinedScore (predicted_box h t) (h (d_bbox d))"

text \<open>A box contains a point, its four edges included.\<close>

definition inside :: "box \<Rightarrow> real \<Rightarrow> real \<Rightarrow> bool" where
  "inside b vx vy \<longleftrightarrow>
     b0 b \<le> vx \<and> vx \<le> fadd (b0 b) (b2 b) \<and> b1 b \<le> vy \<and> vy \<le> fadd (b1 b) (b3 b)"

text \<open>
  The invariant of the tracker's ids: the ids of the tracks increase along the list and
  lie below the counter.
\<close>

definition ids_ok :: "PersonTracker \<Rightarrow> bool" where
  "ids_ok s \<longleftrightarrow>
     sorted_wrt (<) (map pid (tracked s)) \<and> (\<forall>t \<in> set (tracked s). pid t < nextId s)"

subsection \<open>Sequences of calls\<close>

text \<open>
  A frame is one call of \<open>update\<close>: the detections passed, and what the caller did to
  the store since the previous call (allocating the arrays of new detections, for
  instance).  \<open>run\<close> returns the track list each call returned, with the store as it
  was when the call returned.
\<close>

type_synonym frame = "(heap \<Rightarrow> heap) \<times> Detection list"

fun run :: "heap \<Rightarrow> PersonTracker \<Rightarrow> frame list \<Rightarrow> (TrackedPerson list \<times> heap) list" where
  "run h s [] = []"
| "run h s ((env, detections) # fs) =
     (let (s', h') = update (env h) s detections
      in (tracked s', h') # run h' s' fs)"

fun final_state :: "heap \<Rightarrow> PersonTracker \<Rightarrow> frame list \<Rightarrow> PersonTracker \<times> heap" where
  "final_state h s [] = (s, h)"
| "final_state h s ((env, detections) # fs) =
     (let (s', h') = update (env h) s detections in final_state h' s' fs)"

text \<open>
  The ids the calls of a run hand out: a call evaluates \<open>this.nextId++\<close> once for each
  track it creates, so it hands out the values of the counter from its value before the
  call up to its value after the call.
\<close>

fun assigned_ids :: "heap \<Rightarrow> PersonTracker \<Rightarrow> frame list \<Rightarrow> nat list list" where
  "assigned_ids h s [] = []"
| "assigned_ids h s ((env, detections) # fs) =
     (let (s', h') = update (env h) s detections
      in [nextId s..<nextId s'] # assigned_ids h' s' fs)"

text \<open>The ids of the track lists that the calls of a run return, call by call.\<close>

definition observed_ids :: "heap \<Rightarrow> PersonTracker \<Rightarrow> frame list \<Rightarrow> nat list list" where
  "observed_ids h s fs = map (\<lambda>(ts, h'). map pid ts) (run h s fs)"

text \<open>
  The ids of a sequence in the order of their first appearance: \<open>seen_order acc xs\<close>
  appends to \<open>acc\<close> the elements of \<open>xs\<close> not seen so far.
\<close>

fun seen_order :: "nat list \<Rightarrow> nat list \<Rightarrow> nat list" where
  "seen_order acc [] = acc"
| "seen_order acc (x # xs) =
     (if x \<in> set acc then seen_order acc xs else seen_order (acc @ [x]) xs)"

definition first_appearance :: "nat list list \<Rightarrow> nat list" where
  "first_appearance outs = seen_order [] (concat outs)"

subsection \<open>Concrete data for the examples\<close>

definition store0 :: heap where
  "store0 = (\<lambda>_. Box 0 0 0 0)(0 := Box 0 0 1000 50, 1 := Box 700 0 50 50)"

definition det_a :: Detection where
  "det_a = \<lparr>d_id = 0, d_bbox = 0, d_score = 9 / 10, d_class = ''person''\<rparr>"

definition det_b :: Detection where
  "det_b = \<lparr>d_id = 0, d_bbox = 1, d_score = 8 / 10, d_class = ''person''\<rparr>"

definition store1 :: heap where
  "store1 = (\<lambda>_. Box 0 0 0 0)
     (0 := Box 0 0 50 50, 1 := Box 200 0 50 50, 2 := Box 100 0 50 50, 3 := Box 100 0 50 50)"

definition two_tracks :: "TrackedPerson list" where
  "two_tracks =
     [\<lparr>pid = 1, bbox = 0, score = 1, age = 0, velocity = (0, 0)\<rparr>,
      \<lparr>pid = 2, bbox = 1, score = 1, age = 0, velocity = (0, 0)\<rparr>]"

definition two_dets :: "Detection list" where
  "two_dets =
     [\<lparr>d_id = 0, d_bbox = 2, d_score = 7 / 10, d_class = ''person''\<rparr>,
      \<lparr>d_id = 1, d_bbox = 3, d_score = 6 / 10, d_class = ''person''\<rparr>]"

text \<open>
  A run of the tracker in which the caller passes the same detection object in
  consecutive calls, as the render loop of the application does between two runs of
  the detector: the states after the first three calls, and the store after the third
  and the fourth.
\<close>

definition tracker1 :: PersonTracker where
  "tracker1 = \<lparr>tracked = [\<lparr>pid = 1, bbox = 0, score = 9 / 10, age = 0, velocity = (0, 0)\<rparr>],
               nextId = 2\<rparr>"

definition tracker2 :: PersonTracker where
  "tracker2 = \<lparr>tracked = [\<lparr>pid = 1, bbox = 1, score = 8 / 10, age = 0, velocity = (700, 0)\<rparr>],
               nextId = 2\<rparr>"

definition tracker3 :: PersonTracker where
  "tracker3 = \<lparr>tracked = [\<lparr>pid = 1, bbox = 1, score = 8 / 10, age = 1, velocity = (700, 0)\<rparr>,
                          \<lparr>pid = 2, bbox = 1, score = 8 / 10, age = 0, velocity = (0, 0)\<rparr>],
               nextId = 3\<rparr>"

definition store3 :: heap where
  "store3 = store0(1 := Box 1400 0 50 50)"

definition store4 :: heap where
  "store4 = store0(1 := Box 2100 0 50 50)"

definition old_tracker :: PersonTracker where
  "old_tracker = \<lparr>tracked = [\<lparr>pid = 1, bbox = 0, score = 9 / 10, age = 14, velocity = (0, 0)\<rparr>],
                  nextId = 2\<rparr>"

text \<open>
  A track and a detection with equal boxes far from the origin: at \<open>10^16\<close> the
  doubles are 2 apart, more than the width and the height of the box.
\<close>

definition far_store :: heap where
  "far_store = (\<lambda>_. Box 0 0 0 0)
     (0 := Box 10000000000000000 10000000000000000 (5 / 4) (5 / 4),
      1 := Box 10000000000000000 10000000000000000 (5 / 4) (5 / 4))"

definition far_track :: TrackedPerson where
  "far_track = \<lparr>pid = 1, bbox = 0, score = 1, age = 0, velocity = (0, 0)\<rparr>"

definition far_det :: Detection where
  "far_det = \<lparr>d_id = 0, d_bbox = 1, d_score = 1, d_class = ''person''\<rparr>"


section \<open>Rounding to the nearest double\<close>

text \<open>
  Zero and the integers below \<open>2^53\<close> are doubles, and so is every \<open>m * 2^j\<close> with
  \<open>\<bar>m\<bar> < 2^53\<close> and \<open>j \<ge> - 1074\<close>; rounding keeps the sign.  \<open>rnd_eqI\<close> evaluates
  \<open>rnd\<close> at a number whose binade is known.
\<close>

lemma rnd_0 [simp]: "rnd 0 = 0"
  by (simp add: rnd_def)

lemma round_even_of_int [simp]: "round_even (of_int n) = n"
  by (simp add: round_even_def)

lemma round_even_nonpos: "q \<le> 0 \<Longrightarrow> round_even q \<le> 0"
  unfolding round_even_def Let_def
  by (auto simp: not_less)

lemma round_even_nonneg: "0 \<le> q \<Longrightarrow> 0 \<le> round_even q"
  unfolding round_even_def Let_def by auto

lemma rnd_nonpos: "x \<le> 0 \<Longrightarrow> rnd x \<le> 0"
  unfolding rnd_def
  by (auto intro!: mult_nonpos_nonneg round_even_nonpos divide_nonpos_pos simp: of_int_le_0_iff)

lemma rnd_nonneg: "0 \<le> x \<Longrightarrow> 0 \<le> rnd x"
  unfolding rnd_def
  by (auto intro!: mult_nonneg_nonneg round_even_nonneg)

lemma floor_log2_eq:
  assumes "2 powi k \<le> \<bar>x\<bar>" "\<bar>x\<bar> < 2 powi (k + 1)"
  shows "\<lfloor>log 2 \<bar>x\<bar>\<rfloor> = k"
proof -
  have "0 < (2::real) powi k" by simp
  then have p: "0 < \<bar>x\<bar>"
    using assms(1) by (rule less_le_trans)
  have a: "(2::real) powr (of_int k) = 2 powi k"
    by (rule powr_real_of_int') simp_all
  have "(2::real) powr (of_int (k + 1)) = 2 powi (k + 1)"
    by (rule powr_real_of_int') simp_all
  then have b: "(2::real) powr (of_int k + 1) = 2 powi (k + 1)"
    by simp
  show ?thesis
    using floor_log_eq_powr_iff [of "\<bar>x\<bar>" 2 k] p assms a b by simp
qed

lemma rnd_eqI:
  assumes "2 powi k \<le> \<bar>x\<bar>" "\<bar>x\<bar> < 2 powi (k + 1)" "- 1022 \<le> k"
    and "round_even (x / 2 powi (k - 52)) = m"
  shows "rnd x = of_int m * 2 powi (k - 52)"
proof -
  have "0 < (2::real) powi k" by simp
  then have "0 < \<bar>x\<bar>"
    using assms(1) by (rule less_le_trans)
  then have "x \<noteq> 0" by simp
  moreover have "expo x = k"
    using floor_log2_eq [OF assms(1,2)] assms(3) by (simp add: expo_def)
  ultimately show ?thesis using assms(4) by (simp add: rnd_def)
qed

lemma expo_upper:
  assumes "x \<noteq> 0" "\<bar>x\<bar> < 2 powi (k + 1)" "- 1022 \<le> k"
  shows "expo x \<le> k"
proof -
  have p: "0 < \<bar>x\<bar>" using assms(1) by simp
  have "(2::real) powr (of_int (k + 1)) = 2 powi (k + 1)"
    by (rule powr_real_of_int') simp_all
  then have "\<bar>x\<bar> < 2 powr (of_int (k + 1))"
    using assms(2) by simp
  then have "log 2 \<bar>x\<bar> < of_int (k + 1)"
    using p by (simp add: log_less_iff)
  then have "\<lfloor>log 2 \<bar>x\<bar>\<rfloor> \<le> k"
    by linarith
  then show ?thesis using assms(3) by (simp add: expo_def)
qed

lemma rnd_repr:
  assumes "\<bar>m\<bar> < 2 ^ 53" "- 1074 \<le> j"
  shows "rnd (of_int m * 2 powi j) = of_int m * 2 powi j"
proof (cases "m = 0")
  case True
  then show ?thesis by simp
next
  case False
  let ?x = "of_int m * 2 powi j :: real"
  have x0: "?x \<noteq> 0" using False by simp
  have "\<bar>?x\<bar> = of_int \<bar>m\<bar> * 2 powi j"
    by (simp add: abs_mult)
  also have "\<dots> < 2 ^ 53 * 2 powi j"
  proof (rule mult_strict_right_mono)
    have "real_of_int \<bar>m\<bar> < real_of_int (2 ^ 53)"
      using assms(1) by (simp only: of_int_less_iff)
    then show "real_of_int \<bar>m\<bar> < 2 ^ 53" by simp
    show "0 < (2::real) powi j" by simp
  qed
  also have "\<dots> = 2 powi (j + 52 + 1)"
    by (simp add: power_int_add)
  finally have "expo ?x \<le> j + 52"
    using expo_upper [OF x0, of "j + 52"] assms(2) by simp
  define e where "e = expo ?x"
  have "e - 52 \<le> j" using \<open>expo ?x \<le> j + 52\<close> by (simp add: e_def)
  then obtain d :: nat where d: "j = e - 52 + int d"
    using zle_iff_zadd by blast
  have pw: "(2::real) powi j = 2 ^ d * 2 powi (e - 52)"
    by (subst d) (simp add: power_int_add)
  have "?x = of_int (m * 2 ^ d) * 2 powi (e - 52)"
    by (simp add: pw)
  then have q: "?x / 2 powi (e - 52) = of_int (m * 2 ^ d)"
    by (metis nonzero_mult_div_cancel_right power_int_eq_0_iff zero_neq_numeral)
  have "rnd ?x = of_int (round_even (?x / 2 powi (e - 52))) * 2 powi (e - 52)"
    using x0 unfolding rnd_def e_def by (simp only: if_False)
  also have "\<dots> = of_int (m * 2 ^ d) * 2 powi (e - 52)"
    by (simp only: q round_even_of_int)
  also have "\<dots> = ?x"
    by (simp add: pw)
  finally show ?thesis .
qed

lemma rnd_of_int: "\<bar>n\<bar> < 2 ^ 53 \<Longrightarrow> rnd (of_int n) = of_int n"
  using rnd_repr [of n 0] by simp

lemma rnd_numeral [simp]:
  "numeral w < (9007199254740992::int) \<Longrightarrow> rnd (numeral w) = numeral w"
  using rnd_of_int [of "numeral w"] by simp

lemma rnd_neg_numeral [simp]:
  "numeral w < (9007199254740992::int) \<Longrightarrow> rnd (- numeral w) = - numeral w"
  using rnd_of_int [of "- numeral w"] by simp

lemma rnd_1 [simp]: "rnd 1 = 1"
  using rnd_of_int [of 1] by simp

text \<open>
  Every value of \<open>rnd\<close> is a multiple of \<open>2^(- 1074)\<close>, and a number of at least that
  magnitude does not round to 0.  Hence the rounded difference of two doubles has the
  sign of their exact difference.
\<close>

lemma round_even_ge_1: "1 \<le> q \<Longrightarrow> 1 \<le> round_even q"
  unfolding round_even_def Let_def by (auto simp: le_floor_iff)

lemma round_even_le_m1: "q \<le> - 1 \<Longrightarrow> round_even q \<le> - 1"
  unfolding round_even_def Let_def by (auto simp: floor_le_iff not_less)

lemma powi_expo_le:
  assumes "2 powi (- 1074) \<le> \<bar>x\<bar>"
  shows "2 powi (expo x - 52) \<le> \<bar>x\<bar>"
proof (cases "\<lfloor>log 2 \<bar>x\<bar>\<rfloor> \<le> - 1022")
  case True
  then have "expo x - 52 = - 1074" by (simp add: expo_def)
  then show ?thesis using assms by (simp only:)
next
  case False
  then have e: "expo x = \<lfloor>log 2 \<bar>x\<bar>\<rfloor>" by (simp add: expo_def)
  have "0 < (2::real) powi (- 1074)" by (rule zero_less_power_int) simp
  then have p: "0 < \<bar>x\<bar>" using assms by (rule less_le_trans)
  have "2 powr (of_int \<lfloor>log 2 \<bar>x\<bar>\<rfloor>) \<le> \<bar>x\<bar>"
    using floor_log_eq_powr_iff [of "\<bar>x\<bar>" 2 "\<lfloor>log 2 \<bar>x\<bar>\<rfloor>"] p by simp
  moreover have "(2::real) powr (of_int \<lfloor>log 2 \<bar>x\<bar>\<rfloor>) = 2 powi \<lfloor>log 2 \<bar>x\<bar>\<rfloor>"
    by (rule powr_real_of_int') simp_all
  moreover have "(2::real) powi (\<lfloor>log 2 \<bar>x\<bar>\<rfloor> - 52) \<le> 2 powi \<lfloor>log 2 \<bar>x\<bar>\<rfloor>"
    by (rule power_int_increasing) simp_all
  ultimately show ?thesis unfolding e by linarith
qed

lemma rnd_pos:
  assumes "2 powi (- 1074) \<le> x"
  shows "0 < rnd x"
proof -
  have "0 < (2::real) powi (- 1074)" by (rule zero_less_power_int) simp
  then have x: "0 < x" using assms by (rule less_le_trans)
  then have ax: "\<bar>x\<bar> = x" by simp
  have "2 powi (expo x - 52) \<le> x"
    using powi_expo_le [of x] assms unfolding ax by blast
  then have "1 \<le> x / 2 powi (expo x - 52)"
    by (simp add: le_divide_eq)
  then have "1 \<le> round_even (x / 2 powi (expo x - 52))"
    by (rule round_even_ge_1)
  then have "0 < real_of_int (round_even (x / 2 powi (expo x - 52)))"
    by simp
  then show ?thesis
    using x by (simp add: rnd_def)
qed

lemma rnd_neg:
  assumes "x \<le> - (2 powi (- 1074))"
  shows "rnd x < 0"
proof -
  have "0 < (2::real) powi (- 1074)" by (rule zero_less_power_int) simp
  then have x: "x < 0" using assms by linarith
  then have ax: "\<bar>x\<bar> = - x" by simp
  have "2 powi (- 1074) \<le> - x" using assms by linarith
  then have "2 powi (expo x - 52) \<le> - x"
    using powi_expo_le [of x] unfolding ax by blast
  then have "x / 2 powi (expo x - 52) \<le> - 1"
    by (simp add: divide_le_eq)
  then have "round_even (x / 2 powi (expo x - 52)) \<le> - 1"
    by (rule round_even_le_m1)
  then have "real_of_int (round_even (x / 2 powi (expo x - 52))) < 0"
    by simp
  then show ?thesis
    using x by (simp add: rnd_def mult_neg_pos)
qed

lemma rnd_grid: "\<exists>n. rnd x = of_int n * 2 powi (- 1074)"
proof (cases "x = 0")
  case True
  have "rnd x = of_int 0 * 2 powi (- 1074)"
    using True by (simp only: rnd_0 of_int_0 mult_zero_left)
  then show ?thesis by blast
next
  case False
  define j :: int where "j = - 1074"
  have "j \<le> expo x - 52" by (simp add: expo_def j_def)
  then obtain d :: nat where d: "expo x - 52 = j + int d"
    using zle_iff_zadd by blast
  have "(2::real) powi (expo x - 52) = 2 ^ d * 2 powi j"
    by (subst d) (simp add: power_int_add)
  then have "rnd x = of_int (round_even (x / 2 powi (expo x - 52)) * 2 ^ d) * 2 powi j"
    using False by (simp add: rnd_def)
  then show ?thesis unfolding j_def by blast
qed

lemma fsub_sign:
  "fsub (rnd x) (rnd y) < 0 \<longleftrightarrow> rnd x < rnd y"
  "fsub (rnd x) (rnd y) = 0 \<longleftrightarrow> rnd x = rnd y"
  "0 < fsub (rnd x) (rnd y) \<longleftrightarrow> rnd y < rnd x"
proof -
  define u :: real where "u = 2 powi (- 1074)"
  have u: "0 < u" unfolding u_def by (rule zero_less_power_int) simp
  obtain n m where n: "rnd x = of_int n * u" and m: "rnd y = of_int m * u"
    using rnd_grid unfolding u_def by blast
  have d: "rnd x - rnd y = of_int (n - m) * u"
    by (simp add: n m algebra_simps)
  have lt: "fsub (rnd x) (rnd y) < 0" if "rnd x < rnd y"
  proof -
    have "n < m" using that u by (simp add: n m)
    then have "real_of_int (n - m) \<le> - 1" by linarith
    then have "real_of_int (n - m) * u \<le> - 1 * u"
      using u by (intro mult_right_mono) simp_all
    then have "rnd x - rnd y \<le> - (2 powi (- 1074))"
      unfolding d u_def by linarith
    then show ?thesis unfolding fsub_def by (rule rnd_neg)
  qed
  have gt: "0 < fsub (rnd x) (rnd y)" if "rnd y < rnd x"
  proof -
    have "m < n" using that u by (simp add: n m)
    then have "1 \<le> real_of_int (n - m)" by linarith
    then have "1 * u \<le> real_of_int (n - m) * u"
      using u by (intro mult_right_mono) simp_all
    then have "2 powi (- 1074) \<le> rnd x - rnd y"
      unfolding d u_def by linarith
    then show ?thesis unfolding fsub_def by (rule rnd_pos)
  qed
  have eq: "fsub (rnd x) (rnd y) = 0" if "rnd x = rnd y"
    using that by (simp add: fsub_def)
  show "fsub (rnd x) (rnd y) < 0 \<longleftrightarrow> rnd x < rnd y"
    using lt gt eq by (metis less_irrefl less_asym linorder_neqE_linordered_idom)
  show "fsub (rnd x) (rnd y) = 0 \<longleftrightarrow> rnd x = rnd y"
    using lt gt eq by (metis less_irrefl linorder_neqE_linordered_idom)
  show "0 < fsub (rnd x) (rnd y) \<longleftrightarrow> rnd y < rnd x"
    using lt gt eq by (metis less_irrefl less_asym linorder_neqE_linordered_idom)
qed

subsection \<open>The doubles of the examples\<close>

lemmas float_ops = fadd_def fsub_def fmul_def fdiv_def fpow2_def fsqrt_def

lemma literal_doubles:
  "rnd (1 / 10) = 3602879701896397 / 36028797018963968"
  "rnd (3 / 5) = 5404319552844595 / 9007199254740992"
  "rnd (2 / 5) = 3602879701896397 / 9007199254740992"
  "rnd (1 / 5) = 3602879701896397 / 18014398509481984"
  using
    rnd_eqI [of "- 4" "1 / 10" "7205759403792794"]
    rnd_eqI [of "- 1" "3 / 5" "5404319552844595"]
    rnd_eqI [of "- 2" "2 / 5" "7205759403792794"]
    rnd_eqI [of "- 3" "1 / 5" "7205759403792794"]
  by (simp_all add: round_even_def)

lemma tie_roundings:
  "rnd (1 / 2) = 1 / 2"
  "rnd (3602879701896397 / 18014398509481984) = 3602879701896397 / 18014398509481984"
  using
    rnd_eqI [of "- 1" "1 / 2" "4503599627370496"]
    rnd_eqI [of "- 3" "3602879701896397 / 18014398509481984" "7205759403792794"]
  by (simp_all add: round_even_def)

lemma sqrt_10000: "sqrt 10000 = 100"
  by (rule real_sqrt_unique) auto

lemma cancellation_roundings:
  "rnd 10000000000000000 = 10000000000000000"
  "rnd (40000000000000005 / 4) = 10000000000000002"
  "rnd (80000000000000005 / 8) = 10000000000000000"
  "rnd (25 / 16) = 25 / 16"
  "rnd (25 / 8) = 25 / 8"
  "rnd (5 / 8) = 5 / 8"
  "rnd (- (7 / 8)) = - (7 / 8)"
  "rnd (- (32 / 7)) = - (2573485501354569 / 562949953421312)"
  "rnd (3602879701896397 / 9007199254740992) = 3602879701896397 / 9007199254740992"
  "rnd (- (13907938013932572718249650204555 / 5070602400912917605986812821504))
     = - (6176365203250965 / 2251799813685248)"
  "rnd (- (21102581111107463 / 9007199254740992)) = - (2637822638888433 / 1125899906842624)"
  using
    rnd_eqI [of "53" "10000000000000000" "5000000000000000"]
    rnd_eqI [of "53" "40000000000000005 / 4" "5000000000000001"]
    rnd_eqI [of "53" "80000000000000005 / 8" "5000000000000000"]
    rnd_eqI [of "0" "25 / 16" "7036874417766400"]
    rnd_eqI [of "1" "25 / 8" "7036874417766400"]
    rnd_eqI [of "- 1" "5 / 8" "5629499534213120"]
    rnd_eqI [of "- 1" "- (7 / 8)" "- 7881299347898368"]
    rnd_eqI [of "2" "- (32 / 7)" "- 5146971002709138"]
    rnd_eqI [of "- 2" "3602879701896397 / 9007199254740992" "7205759403792794"]
    rnd_eqI [of "1" "- (13907938013932572718249650204555 / 5070602400912917605986812821504)"
                "- 6176365203250965"]
    rnd_eqI [of "1" "- (21102581111107463 / 9007199254740992)" "- 5275645277776866"]
  by (simp_all add: round_even_def)

lemma near_threshold_roundings:
  "rnd (1 / 20) = 3602879701896397 / 72057594037927936"
  "rnd (33 / 40) = 3715469692580659 / 4503599627370496"
  "rnd (788129934789837 / 4503599627370496) = 788129934789837 / 4503599627370496"
  "rnd (19471113219505603967277331424215 / 649037107316853453566312041152512)
     = 1080863910568919 / 36028797018963968"
  "rnd (2839537344511234737554542517289 / 40564819207303340847894502572032)
     = 5044031582654957 / 72057594037927936"
  "rnd (7205759403792795 / 72057594037927936) = 7205759403792795 / 72057594037927936"
  using
    rnd_eqI [of "- 5" "1 / 20" "7205759403792794"]
    rnd_eqI [of "- 1" "33 / 40" "7430939385161318"]
    rnd_eqI [of "- 3" "788129934789837 / 4503599627370496" "6305039478318696"]
    rnd_eqI [of "- 6" "19471113219505603967277331424215 / 649037107316853453566312041152512"
                "8646911284551352"]
    rnd_eqI [of "- 4" "2839537344511234737554542517289 / 40564819207303340847894502572032"
                "5044031582654957"]
    rnd_eqI [of "- 4" "7205759403792795 / 72057594037927936" "7205759403792795"]
  by (simp_all add: round_even_def)

lemma sqrt_27225: "sqrt 27225 = 165"
  by (rule real_sqrt_unique) auto

lemma scale_roundings:
  "rnd (1 / 49) = 5882252574524729 / 288230376151711744"
  "rnd (288230376151711721 / 288230376151711744) = 9007199254740991 / 9007199254740992"
  "rnd (320 / 77) = 2339532273958699 / 562949953421312"
  "rnd (180143985094819823 / 562949953421312) = 5629499534213119 / 17592186044416"
  using
    rnd_eqI [of "- 6" "1 / 49" "5882252574524729"]
    rnd_eqI [of "- 1" "288230376151711721 / 288230376151711744" "9007199254740991"]
    rnd_eqI [of "2" "320 / 77" "4679064547917398"]
    rnd_eqI [of "8" "180143985094819823 / 562949953421312" "5629499534213119"]
  by (simp_all add: round_even_def)

lemma close_scores_roundings:
  "rnd (1 / 16) = 1 / 16"
  "rnd (3 / 16) = 3 / 16"
  "rnd (13 / 16) = 13 / 16"
  "rnd (5404319552844595 / 144115188075855872) = 5404319552844595 / 144115188075855872"
  "rnd (46837436124653161 / 144115188075855872) = 5854679515581645 / 18014398509481984"
  "rnd (52241755677497755 / 144115188075855872) = 6530219459687219 / 18014398509481984"
  "rnd (3 / 32) = 3 / 32"
  "rnd (29 / 32) = 29 / 32"
  "rnd (104483511354995513 / 288230376151711744) = 1632554864921805 / 4503599627370496"
  "rnd (1632554864921805 / 4503599627370496) = 1632554864921805 / 4503599627370496"
  using
    rnd_eqI [of "- 4" "1 / 16" "4503599627370496"]
    rnd_eqI [of "- 3" "3 / 16" "6755399441055744"]
    rnd_eqI [of "- 1" "13 / 16" "7318349394477056"]
    rnd_eqI [of "- 5" "5404319552844595 / 144115188075855872" "5404319552844595"]
    rnd_eqI [of "- 2" "46837436124653161 / 144115188075855872" "5854679515581645"]
    rnd_eqI [of "- 2" "52241755677497755 / 144115188075855872" "6530219459687219"]
    rnd_eqI [of "- 4" "3 / 32" "6755399441055744"]
    rnd_eqI [of "- 1" "29 / 32" "8162774324609024"]
    rnd_eqI [of "- 2" "104483511354995513 / 288230376151711744" "6530219459687220"]
    rnd_eqI [of "- 2" "1632554864921805 / 4503599627370496" "6530219459687220"]
  by (simp_all add: round_even_def)

lemma sqrt_22500: "sqrt 22500 = 150"
  by (rule real_sqrt_unique) auto

lemma sqrt_5625: "sqrt 5625 = 75"
  by (rule real_sqrt_unique) auto

section \<open>Facts about the phases\<close>

subsection \<open>Bootstrap, point query, examples\<close>

lemma bootstrap_eq:
  "bootstrap n ds = (map2 new_track [n..<n + length ds] ds, n + length ds)"
proof (induction ds arbitrary: n)
  case Nil
  show ?case by simp
next
  case (Cons d ds)
  have "[n..<n + length (d # ds)] = n # [Suc n..<Suc n + length ds]"
    by (subst upt_rec) simp
  then show ?case using Cons.IH [of "Suc n"] by simp
qed

lemma update_bootstrap:
  "tracked s = [] \<Longrightarrow>
   update h s detections =
     (\<lparr>tracked = map2 new_track
         [nextId s..<nextId s + length (personDetections detections)]
         (personDetections detections),
       nextId = nextId s + length (personDetections detections)\<rparr>, h)"
  by (simp add: update_def bootstrap_eq Let_def)

lemma pid_map2_new_track:
  "map pid (map2 new_track [n..<n + length ds] ds) = [n..<n + length ds]"
  by (rule nth_equalityI) (simp_all add: new_track_def)

lemma det_sel [simp]:
  "d_bbox det_a = 0" "d_bbox det_b = 1"
  "d_score det_a = 9 / 10" "d_score det_b = 8 / 10"
  by (simp_all add: det_a_def det_b_def)

lemma person_dets [simp]:
  "personDetections [] = []"
  "personDetections (det_a # ds) = det_a # personDetections ds"
  "personDetections (det_b # ds) = det_b # personDetections ds"
  by (simp_all add: personDetections_def det_a_def det_b_def)

lemma store0_sel [simp]:
  "store0 0 = Box 0 0 1000 50" "store0 (Suc 0) = Box 700 0 50 50"
  by (simp_all add: store0_def)

lemma scan_find:
  "scan h vx vy persons = find (\<lambda>p. inside (h (bbox p)) vx vy) persons"
  by (induction persons) (simp_all add: Let_def inside_def)

subsection \<open>The greedy loop and the ageing loop\<close>

lemma commits_subset: "set (commits cs m md) \<subseteq> set cs"
  by (induction cs arbitrary: m md) auto

lemma commits_fresh:
  "c \<in> set (commits cs m md) \<Longrightarrow> trackIdx c \<notin> m \<and> detIdx c \<notin> md"
  by (induction cs arbitrary: m md) (auto split: if_splits)

lemma commits_distinct_tracks: "distinct (map trackIdx (commits cs m md))"
  by (induction cs arbitrary: m md) (auto dest: commits_fresh)

lemma commits_distinct_dets: "distinct (map detIdx (commits cs m md))"
  by (induction cs arbitrary: m md) (auto dest: commits_fresh)

lemma commits_append:
  "commits (xs @ ys) m md =
     commits xs m md @
     commits ys (m \<union> trackIdx ` set (commits xs m md)) (md \<union> detIdx ` set (commits xs m md))"
proof (induction xs arbitrary: m md)
  case Nil
  show ?case by simp
next
  case (Cons c xs)
  show ?case
  proof (cases "trackIdx c \<in> m \<or> detIdx c \<in> md")
    case True
    then show ?thesis using Cons.IH [of m md] by simp
  next
    case False
    have "insert (trackIdx c) m \<union> A = m \<union> insert (trackIdx c) A" for A by blast
    moreover have "insert (detIdx c) md \<union> B = md \<union> insert (detIdx c) B" for B by blast
    ultimately show ?thesis
      using False Cons.IH [of "insert (trackIdx c) m" "insert (detIdx c) md"] by simp
  qed
qed

lemma greedy_sets:
  "snd (greedy h ds cs ts m md) =
     (m \<union> trackIdx ` set (commits cs m md), md \<union> detIdx ` set (commits cs m md))"
  by (induction cs arbitrary: ts m md) (auto simp: Let_def)

lemma greedy_length: "length (fst (greedy h ds cs ts m md)) = length ts"
  by (induction cs arbitrary: ts m md) (auto simp: Let_def)

lemma find_commits_None:
  "j \<in> m \<Longrightarrow> find (\<lambda>c. trackIdx c = j) (commits cs m md) = None"
  by (auto simp: find_None_iff dest: commits_fresh)

lemma greedy_nth:
  "j < length ts \<Longrightarrow>
   fst (greedy h ds cs ts m md) ! j =
     (case find (\<lambda>c. trackIdx c = j) (commits cs m md) of
        None \<Rightarrow> ts ! j
      | Some c \<Rightarrow> apply_match h (ts ! j) (ds ! detIdx c))"
proof (induction cs arbitrary: ts m md)
  case Nil
  show ?case by simp
next
  case (Cons c cs)
  show ?case
  proof (cases "trackIdx c \<in> m \<or> detIdx c \<in> md")
    case True
    then show ?thesis using Cons.IH [OF Cons.prems, of m md] by simp
  next
    case False
    let ?ts = "ts[trackIdx c := apply_match h (ts ! trackIdx c) (ds ! detIdx c)]"
    have len: "j < length ?ts" using Cons.prems by simp
    note ih = Cons.IH [OF len, of "insert (trackIdx c) m" "insert (detIdx c) md"]
    show ?thesis
    proof (cases "trackIdx c = j")
      case True
      have "find (\<lambda>c. trackIdx c = j)
              (commits cs (insert (trackIdx c) m) (insert (detIdx c) md)) = None"
        using True by (intro find_commits_None) simp
      then show ?thesis using False True ih Cons.prems by (simp add: Let_def)
    next
      case neq: False
      then have "?ts ! j = ts ! j" by simp
      then show ?thesis using False neq ih by (simp add: Let_def split: option.splits)
    qed
  qed
qed

lemma age_unmatched_length: "length (fst (age_unmatched m is ts h)) = length ts"
  by (induction "is" arbitrary: ts h) (auto simp: Let_def)

lemma age_unmatched_nth:
  "distinct is \<Longrightarrow> j < length ts \<Longrightarrow>
   fst (age_unmatched m is ts h) ! j =
     (if j \<in> set is \<and> j \<notin> m then (ts ! j)\<lparr>age := age (ts ! j) + 1\<rparr> else ts ! j)"
proof (induction "is" arbitrary: ts h)
  case Nil
  show ?case by simp
next
  case (Cons ti tis)
  show ?case
  proof (cases "ti \<in> m")
    case True
    then show ?thesis using Cons.IH [of ts h] Cons.prems by auto
  next
    case False
    let ?ts = "ts[ti := (ts ! ti)\<lparr>age := age (ts ! ti) + 1\<rparr>]"
    have "j < length ?ts" using Cons.prems by simp
    moreover have "distinct tis" "ti \<notin> set tis" using Cons.prems by simp_all
    ultimately show ?thesis
      using False Cons.IH [of ?ts] Cons.prems(2) by (cases "j = ti") (auto simp: Let_def)
  qed
qed

subsection \<open>Scores\<close>

lemma fmul_zero [simp]: "fmul 0 y = 0" "fmul x 0 = 0"
  by (simp_all add: fmul_def)

lemma fdiv_zero [simp]: "fdiv 0 y = 0"
  by (simp add: fdiv_def)

lemma fsub_nonpos: "x \<le> y \<Longrightarrow> fsub x y \<le> 0"
  by (simp add: fsub_def rnd_nonpos)

lemma iou_inter_area:
  "iou a b =
     (if union_area a b > 0 then fdiv (inter_area a b) (union_area a b) else 0)"
  by (simp add: iou_def inter_area_def union_area_def Let_def)

lemma iou_spec: "0 \<le> union_area a b \<Longrightarrow> iou a b = spec_iou a b"
  by (simp add: iou_inter_area spec_iou_def)

lemma inter_area_disjoint: "disjoint_boxes a b \<Longrightarrow> inter_area a b = 0"
proof -
  assume d: "disjoint_boxes a b"
  let ?dx = "fsub (min (fadd (b0 a) (b2 a)) (fadd (b0 b) (b2 b))) (max (b0 a) (b0 b))"
  let ?dy = "fsub (min (fadd (b1 a) (b3 a)) (fadd (b1 b) (b3 b))) (max (b1 a) (b1 b))"
  have "?dx \<le> 0 \<or> ?dy \<le> 0"
    using d unfolding disjoint_boxes_def
    by (auto intro!: fsub_nonpos simp: min_le_iff_disj le_max_iff_disj)
  then have "max 0 ?dx = 0 \<or> max 0 ?dy = 0"
    by auto
  then show ?thesis
    unfolding inter_area_def by auto
qed

lemma iou_disjoint: "disjoint_boxes a b \<Longrightarrow> iou a b = 0"
  by (simp add: iou_inter_area inter_area_disjoint)

lemma combinedScore_proximity:
  "combinedScore a b =
     fadd (fmul (rnd (6 / 10)) (iou a b)) (fmul (rnd (4 / 10)) (spec_proximity a b))"
  by (simp add: combinedScore_def spec_proximity_def centerDistance_def fmul_def Let_def
      mult.commute)

lemma pair_score_spec:
  "0 \<le> union_area (predicted_box h t) (h (d_bbox d)) \<Longrightarrow> pair_score h t d = spec_score h t d"
  by (simp add: pair_score_def combinedScore_proximity spec_score_def iou_spec
      predicted_box_def Let_def)

lemma set_build_costs:
  "set (build_costs h ts ds) =
     {\<lparr>trackIdx = ti, detIdx = di, cscore = pair_score h (ts ! ti) (ds ! di)\<rparr> | ti di.
        ti < length ts \<and> di < length ds \<and> pair_score h (ts ! ti) (ds ! di) > rnd (1 / 10)}"
  by (auto simp: build_costs_def Let_def pair_score_def split: if_splits)

subsection \<open>The order in which the pairs are walked\<close>

lemma sorted_wrt_concat_map:
  assumes "sorted_wrt Q xs"
    and "\<And>x. x \<in> set xs \<Longrightarrow> sorted_wrt R (f x)"
    and "\<And>x y a b. Q x y \<Longrightarrow> a \<in> set (f x) \<Longrightarrow> b \<in> set (f y) \<Longrightarrow> R a b"
  shows "sorted_wrt R (concat (map f xs))"
  using assms
proof (induction xs)
  case Nil
  show ?case by simp
next
  case (Cons x xs)
  have "sorted_wrt R (concat (map f xs))"
    using Cons by simp
  moreover have "sorted_wrt R (f x)" using Cons.prems(2) by simp
  moreover have "R a b" if "a \<in> set (f x)" "b \<in> set (concat (map f xs))" for a b
  proof -
    from that(2) obtain y where y: "y \<in> set xs" "b \<in> set (f y)" by auto
    with Cons.prems(1) have "Q x y" by simp
    then show ?thesis using Cons.prems(3) that(1) y(2) by blast
  qed
  ultimately show ?case by (simp add: sorted_wrt_append)
qed

lemma build_costs_enumerated: "sorted_wrt enumerated_before (build_costs h ts ds)"
  unfolding build_costs_def
proof (rule sorted_wrt_concat_map [where Q = "(<)"], goal_cases)
  case 1
  show ?case by simp
next
  case (2 ti)
  show ?case
    unfolding Let_def
    by (rule sorted_wrt_concat_map [where Q = "(<)"])
       (auto simp: enumerated_before_def split: if_splits)
next
  case (3 ti tj a b)
  then show ?case
    by (auto simp: enumerated_before_def Let_def split: if_splits)
qed

lemma insort_key_walked:
  assumes "sorted_wrt (\<lambda>a b. f a < f b \<or> (f a = f b \<and> R a b)) ys"
    and "\<forall>y \<in> set ys. R x y"
  shows "sorted_wrt (\<lambda>a b. f a < f b \<or> (f a = f b \<and> R a b)) (insort_key f x ys)"
  using assms
proof (induction ys)
  case Nil
  show ?case by simp
next
  case (Cons y ys)
  show ?case
  proof (cases "f x \<le> f y")
    case True
    have "f x < f z \<or> (f x = f z \<and> R x z)" if "z \<in> set (y # ys)" for z
    proof -
      have "f y \<le> f z" using Cons.prems(1) that by auto
      with True have "f x \<le> f z" by simp
      moreover have "R x z" using Cons.prems(2) that by blast
      ultimately show ?thesis by auto
    qed
    then show ?thesis using True Cons.prems(1) by simp
  next
    case False
    then have "f y < f x" by simp
    moreover have "sorted_wrt (\<lambda>a b. f a < f b \<or> (f a = f b \<and> R a b)) (insort_key f x ys)"
      using Cons by simp
    ultimately show ?thesis
      using False Cons.prems(1) by (auto simp: set_insort_key)
  qed
qed

lemma sort_key_walked:
  "sorted_wrt R xs \<Longrightarrow>
   sorted_wrt (\<lambda>a b. f a < f b \<or> (f a = f b \<and> R a b)) (sort_key f xs)"
proof (induction xs)
  case Nil
  show ?case by simp
next
  case (Cons x xs)
  then have "sorted_wrt (\<lambda>a b. f a < f b \<or> (f a = f b \<and> R a b)) (sort_key f xs)"
    and "\<forall>y \<in> set (sort_key f xs). R x y"
    by simp_all
  then show ?case
    using insort_key_walked [of f R "sort_key f xs" x] by simp
qed

lemma sort_costs_walked: "sorted_wrt walked_before (sort_costs (build_costs h ts ds))"
proof -
  have "walked_before = (\<lambda>a b. - cscore a < - cscore b
          \<or> (- cscore a = - cscore b \<and> enumerated_before a b))"
    by (auto simp: walked_before_def fun_eq_iff)
  then show ?thesis
    unfolding sort_costs_def
    using sort_key_walked [OF build_costs_enumerated, of "\<lambda>c. - cscore c" h ts ds] by simp
qed

lemma walked_before_irrefl: "\<not> walked_before a a"
  by (simp add: walked_before_def enumerated_before_def)

lemma sort_costs_distinct: "distinct (sort_costs (build_costs h ts ds))"
proof -
  have "distinct xs" if "sorted_wrt walked_before xs" for xs
    using that by (induction xs) (auto simp: walked_before_irrefl)
  then show ?thesis using sort_costs_walked by blast
qed

lemma set_sort_costs [simp]: "set (sort_costs cs) = set cs"
  by (simp add: sort_costs_def)

lemma sort_costs_ties:
  "filter (\<lambda>c. cscore c = v) (sort_costs cs) = filter (\<lambda>c. cscore c = v) cs"
proof -
  have "(\<lambda>c. cscore c = v) = (\<lambda>c. - cscore c = - v)" by auto
  then show ?thesis
    unfolding sort_costs_def using sort_key_stable [of "\<lambda>c. - cscore c" "- v" cs] by simp
qed

text \<open>
  The comparator \<open>(a, b) => b.score - a.score\<close> on retained pairs: its value is
  negative, zero or positive as the score of \<open>a\<close> is greater than, equal to or less
  than the score of \<open>b\<close>.
\<close>

lemma comparator_sign:
  assumes "a \<in> set (build_costs h ts ds)" and "b \<in> set (build_costs h ts ds)"
  shows "fsub (cscore b) (cscore a) < 0 \<longleftrightarrow> cscore a > cscore b"
    and "fsub (cscore b) (cscore a) = 0 \<longleftrightarrow> cscore a = cscore b"
    and "0 < fsub (cscore b) (cscore a) \<longleftrightarrow> cscore a < cscore b"
proof -
  have r: "\<exists>x. cscore c = rnd x" if "c \<in> set (build_costs h ts ds)" for c
    using that by (auto simp: set_build_costs pair_score_def combinedScore_def fadd_def Let_def)
  obtain x y where "cscore a = rnd x" "cscore b = rnd y"
    using r assms by blast
  then show "fsub (cscore b) (cscore a) < 0 \<longleftrightarrow> cscore a > cscore b"
    and "fsub (cscore b) (cscore a) = 0 \<longleftrightarrow> cscore a = cscore b"
    and "0 < fsub (cscore b) (cscore a) \<longleftrightarrow> cscore a < cscore b"
    using fsub_sign [of y x] by auto
qed

subsection \<open>The committed pairs\<close>

lemma match_phase_sets:
  "snd (match_phase h ts ds) =
     (trackIdx ` set (committed h ts ds), detIdx ` set (committed h ts ds))"
  by (simp add: match_phase_def committed_def greedy_sets)

lemma match_phase_length: "length (fst (match_phase h ts ds)) = length ts"
  by (simp add: match_phase_def greedy_length)

lemma match_phase_nth:
  "j < length ts \<Longrightarrow>
   fst (match_phase h ts ds) ! j =
     (case find (\<lambda>c. trackIdx c = j) (committed h ts ds) of
        None \<Rightarrow> ts ! j
      | Some c \<Rightarrow> apply_match h (ts ! j) (ds ! detIdx c))"
  by (simp add: match_phase_def committed_def greedy_nth)

lemma committed_subset: "set (committed h ts ds) \<subseteq> set (build_costs h ts ds)"
  using commits_subset [of "sort_costs (build_costs h ts ds)" "{}" "{}"]
  by (simp add: committed_def)

lemma committed_split:
  assumes "sort_costs (build_costs h ts ds) = pre @ c # post"
  shows "committed h ts ds =
           commits pre {} {} @
           commits (c # post) (trackIdx ` set (commits pre {} {}))
                              (detIdx ` set (commits pre {} {}))"
  using assms commits_append [of pre "c # post" "{}" "{}"] by (simp add: committed_def)

lemma committed_before:
  assumes "sort_costs (build_costs h ts ds) = pre @ c # post"
  shows "filter (\<lambda>c'. c' \<in> set pre) (committed h ts ds) = commits pre {} {}"
proof -
  let ?T = "trackIdx ` set (commits pre {} {})"
  let ?D = "detIdx ` set (commits pre {} {})"
  have d: "distinct (pre @ c # post)"
    using sort_costs_distinct [of h ts ds] assms by simp
  have "set (commits (c # post) ?T ?D) \<subseteq> set (c # post)"
    by (rule commits_subset)
  then have "filter (\<lambda>c'. c' \<in> set pre) (commits (c # post) ?T ?D) = []"
    using d by (auto simp: filter_empty_conv)
  moreover have "filter (\<lambda>c'. c' \<in> set pre) (commits pre {} {}) = commits pre {} {}"
    using commits_subset [of pre "{}" "{}"] by (auto simp: filter_id_conv)
  ultimately show ?thesis
    by (simp add: committed_split [OF assms])
qed

lemma committed_iff:
  assumes "sort_costs (build_costs h ts ds) = pre @ c # post"
  shows "c \<in> set (committed h ts ds) \<longleftrightarrow>
         (\<forall>c' \<in> set (committed h ts ds). c' \<in> set pre \<longrightarrow>
            trackIdx c' \<noteq> trackIdx c \<and> detIdx c' \<noteq> detIdx c)"
proof -
  let ?T = "trackIdx ` set (commits pre {} {})"
  let ?D = "detIdx ` set (commits pre {} {})"
  have d: "distinct (pre @ c # post)"
    using sort_costs_distinct [of h ts ds] assms by simp
  have pre: "set (commits pre {} {}) = {c' \<in> set (committed h ts ds). c' \<in> set pre}"
    using committed_before [OF assms] by (metis set_filter)
  have a: "c \<notin> set (commits pre {} {})"
    using commits_subset [of pre "{}" "{}"] d by auto
  have b: "c \<notin> set (commits post m md)" for m md
    using commits_subset [of post m md] d by auto
  have "c \<in> set (committed h ts ds) \<longleftrightarrow> \<not> (trackIdx c \<in> ?T \<or> detIdx c \<in> ?D)"
    using a b by (auto simp: committed_split [OF assms])
  also have "\<dots> \<longleftrightarrow> (\<forall>c' \<in> set (commits pre {} {}).
                  trackIdx c' \<noteq> trackIdx c \<and> detIdx c' \<noteq> detIdx c)"
    by (force simp: image_iff)
  finally show ?thesis unfolding pre by auto
qed

lemma store1_sel [simp]:
  "store1 0 = Box 0 0 50 50" "store1 (Suc 0) = Box 200 0 50 50"
  "store1 2 = Box 100 0 50 50" "store1 3 = Box 100 0 50 50"
  by (simp_all add: store1_def)

lemma tie_scores:
  "combinedScore (Box 0 0 50 50) (Box 100 0 50 50) = rnd (1 / 5)"
  "combinedScore (Box 200 0 50 50) (Box 100 0 50 50) = rnd (1 / 5)"
  by (simp_all add: combinedScore_def iou_def centerDistance_def float_ops literal_doubles
      tie_roundings sqrt_10000)

lemma tie_costs:
  "build_costs store1 two_tracks two_dets =
     [\<lparr>trackIdx = 0, detIdx = 0, cscore = rnd (1 / 5)\<rparr>,
      \<lparr>trackIdx = 0, detIdx = 1, cscore = rnd (1 / 5)\<rparr>,
      \<lparr>trackIdx = 1, detIdx = 0, cscore = rnd (1 / 5)\<rparr>,
      \<lparr>trackIdx = 1, detIdx = 1, cscore = rnd (1 / 5)\<rparr>]"
  by (simp add: build_costs_def two_tracks_def two_dets_def predicted_box_def fadd_def
      tie_scores literal_doubles upt_rec [of 0] upt_rec [of 1] upt_rec [of 2])

lemma tie_sorted:
  "sort_costs (build_costs store1 two_tracks two_dets) =
     [\<lparr>trackIdx = 0, detIdx = 0, cscore = rnd (1 / 5)\<rparr>,
      \<lparr>trackIdx = 0, detIdx = 1, cscore = rnd (1 / 5)\<rparr>,
      \<lparr>trackIdx = 1, detIdx = 0, cscore = rnd (1 / 5)\<rparr>,
      \<lparr>trackIdx = 1, detIdx = 1, cscore = rnd (1 / 5)\<rparr>]"
  by (simp add: tie_costs sort_costs_def)

lemma build_costs_distinct: "distinct (build_costs h ts ds)"
proof -
  have "distinct xs" if "sorted_wrt enumerated_before xs" for xs
    using that by (induction xs) (auto simp: enumerated_before_def)
  then show ?thesis using build_costs_enumerated by blast
qed

subsection \<open>The second branch of the update, phase by phase\<close>

lemma spawn_eq:
  "spawn ds md dis ts n =
     (ts @ map2 new_track [n..<n + length (filter (\<lambda>di. di \<notin> md) dis)]
             (map ((!) ds) (filter (\<lambda>di. di \<notin> md) dis)),
      n + length (filter (\<lambda>di. di \<notin> md) dis))"
proof (induction dis arbitrary: ts n)
  case Nil
  show ?case by simp
next
  case (Cons di dis)
  show ?case
  proof (cases "di \<in> md")
    case True
    then show ?thesis using Cons.IH [of ts n] by simp
  next
    case False
    let ?k = "length (filter (\<lambda>di. di \<notin> md) dis)"
    have "[n..<n + Suc ?k] = n # [Suc n..<Suc n + ?k]"
      by (subst upt_rec) simp
    then show ?thesis
      using False Cons.IH [of "ts @ [new_track n (ds ! di)]" "Suc n"] by simp
  qed
qed

lemma aged_tracks_length: "length (aged_tracks h ts ds) = length ts"
  by (simp add: aged_tracks_def age_phase_def split_beta age_unmatched_length
      match_phase_length)

lemma find_committed_None:
  "find (\<lambda>c. trackIdx c = j) (committed h ts ds) = None
     \<longleftrightarrow> j \<notin> trackIdx ` set (committed h ts ds)"
  by (auto simp: find_None_iff)

lemma aged_tracks_nth:
  assumes "j < length ts"
  shows "aged_tracks h ts ds ! j =
     (case find (\<lambda>c. trackIdx c = j) (committed h ts ds) of
        None \<Rightarrow> (ts ! j)\<lparr>age := age (ts ! j) + 1\<rparr>
      | Some c \<Rightarrow> apply_match h (ts ! j) (ds ! detIdx c))"
proof -
  let ?ts1 = "fst (match_phase h ts ds)"
  let ?m = "trackIdx ` set (committed h ts ds)"
  have a: "aged_tracks h ts ds = fst (age_unmatched ?m [0..<length ?ts1] ?ts1 h)"
    using match_phase_sets [of h ts ds]
    by (simp add: aged_tracks_def age_phase_def split_beta)
  have j: "j < length ?ts1" using assms by (simp add: match_phase_length)
  have "aged_tracks h ts ds ! j =
          (if j \<notin> ?m then (?ts1 ! j)\<lparr>age := age (?ts1 ! j) + 1\<rparr> else ?ts1 ! j)"
    unfolding a using age_unmatched_nth [of "[0..<length ?ts1]" j ?ts1 ?m h] j by simp
  then show ?thesis
    using match_phase_nth [OF assms, of h ds] find_committed_None [of j h ts ds]
    by (auto split: option.splits)
qed

lemma apply_match_pid [simp]: "pid (apply_match h t d) = pid t"
  by (simp add: apply_match_def)

lemma aged_tracks_pid: "map pid (aged_tracks h ts ds) = map pid ts"
  by (rule nth_equalityI)
     (auto simp: aged_tracks_length aged_tracks_nth split: option.splits)

lemma update_tracks:
  assumes "tracked s \<noteq> []"
  shows "update h s detections =
     (let ds = personDetections detections;
          new = unmatched_detections h (tracked s) ds
      in (\<lparr>tracked = filter (\<lambda>t. age t < maxAge) (aged_tracks h (tracked s) ds)
                      @ map2 new_track [nextId s..<nextId s + length new] new,
           nextId = nextId s + length new\<rparr>,
          snd (age_phase h (tracked s) ds)))"
proof -
  let ?ds = "personDetections detections"
  obtain ts1 m md where g: "greedy h ?ds (sort_costs (build_costs h (tracked s) ?ds)) (tracked s) {} {}
      = (ts1, m, md)"
    by (cases "greedy h ?ds (sort_costs (build_costs h (tracked s) ?ds)) (tracked s) {} {}")
  then have mp: "match_phase h (tracked s) ?ds = (ts1, m, md)"
    by (simp add: match_phase_def)
  then have md: "md = detIdx ` set (committed h (tracked s) ?ds)"
    using match_phase_sets [of h "tracked s" ?ds] by simp
  obtain ts2 h' where a: "age_unmatched m [0..<length ts1] ts1 h = (ts2, h')"
    by (cases "age_unmatched m [0..<length ts1] ts1 h")
  then have ap: "age_phase h (tracked s) ?ds = (ts2, h')"
    by (simp add: age_phase_def mp)
  then have ag: "aged_tracks h (tracked s) ?ds = ts2"
    by (simp add: aged_tracks_def)
  show ?thesis
    using assms
    by (simp add: update_def Let_def g a spawn_eq ap ag md unmatched_detections_def)
qed

subsection \<open>New tracks\<close>

lemma new_track_sel [simp]:
  "pid (new_track n d) = n" "bbox (new_track n d) = d_bbox d"
  "score (new_track n d) = d_score d" "age (new_track n d) = 0"
  "velocity (new_track n d) = (0, 0)"
  by (simp_all add: new_track_def)

lemma age_map2_new_track: "t \<in> set (map2 new_track ns ds) \<Longrightarrow> age t = 0"
  by (auto simp: set_zip)

lemma pid_map2_new_track_mem:
  "t \<in> set (map2 new_track [n..<n + k] ds) \<Longrightarrow> n \<le> pid t"
  by (auto simp: set_zip)

subsection \<open>A run with a detection passed twice\<close>

lemma scenario_roundings:
  "rnd (1 / 20) = 3602879701896397 / 72057594037927936"
  "rnd (9 / 80) = 8106479329266893 / 72057594037927936"
  "rnd (63951114708661043 / 72057594037927936) = 3996944669291315 / 4503599627370496"
  "rnd (19471113219505603967277331424215 / 649037107316853453566312041152512) = 1080863910568919 / 36028797018963968"
  "rnd (14400510818592686079815541892055 / 40564819207303340847894502572032) = 799388933858263 / 2251799813685248"
  "rnd (13871086852301127 / 36028797018963968) = 1733885856537641 / 4503599627370496"
  "rnd (7 / 2) = 7 / 2"
  "rnd (- (5 / 2)) = - (5 / 2)"
  "rnd (5404319552844595 / 9007199254740992) = 5404319552844595 / 9007199254740992"
  "rnd (3602879701896397 / 9007199254740992) = 3602879701896397 / 9007199254740992"
  "rnd (77 / 200) = 1733885856537641 / 4503599627370496"
  using
    rnd_eqI [of "- 5" "1 / 20" "7205759403792794"]
    rnd_eqI [of "- 4" "9 / 80" "8106479329266893"]
    rnd_eqI [of "- 1" "63951114708661043 / 72057594037927936" "7993889338582630"]
    rnd_eqI [of "- 6" "19471113219505603967277331424215 / 649037107316853453566312041152512" "8646911284551352"]
    rnd_eqI [of "- 2" "14400510818592686079815541892055 / 40564819207303340847894502572032" "6395111470866104"]
    rnd_eqI [of "- 2" "13871086852301127 / 36028797018963968" "6935543426150564"]
    rnd_eqI [of "1" "7 / 2" "7881299347898368"]
    rnd_eqI [of "1" "- (5 / 2)" "- 5629499534213120"]
    rnd_eqI [of "- 1" "5404319552844595 / 9007199254740992" "5404319552844595"]
    rnd_eqI [of "- 2" "3602879701896397 / 9007199254740992" "7205759403792794"]
    rnd_eqI [of "- 2" "77 / 200" "6935543426150564"]
  by (simp_all add: round_even_def)

lemma sqrt_50625: "sqrt 50625 = 225"
  by (rule real_sqrt_unique) auto

lemma sqrt_490000: "sqrt 490000 = 700"
  by (rule real_sqrt_unique) auto

lemma store3_sel [simp]: "store3 0 = Box 0 0 1000 50" "store3 (Suc 0) = Box 1400 0 50 50"
  by (simp_all add: store3_def)

lemma store4_sel [simp]: "store4 0 = Box 0 0 1000 50" "store4 (Suc 0) = Box 2100 0 50 50"
  by (simp_all add: store4_def)

lemma scenario_scores:
  "combinedScore (Box 0 0 1000 50) (Box 700 0 50 50) = rnd (77 / 200)"
  "combinedScore (Box 1400 0 50 50) (Box 700 0 50 50) = 0"
  "combinedScore (Box 2100 0 50 50) (Box 1400 0 50 50) = 0"
  "combinedScore (Box 1400 0 50 50) (Box 1400 0 50 50) = 1"
  by (simp_all add: combinedScore_def iou_def centerDistance_def float_ops literal_doubles
      scenario_roundings sqrt_50625 sqrt_490000)

lemma scenario_retained:
  "rnd (1 / 10) < rnd (77 / 200)" "\<not> rnd (1 / 10) < 0" "rnd (1 / 10) < 1"
  by (simp_all add: literal_doubles scenario_roundings)

lemmas update_eval =
  update_def build_costs_def sort_costs_def predicted_box_def scenario_scores maxAge_def
  set0_def set1_def new_track_def apply_match_def fadd_def fsub_def scenario_retained

lemma call1: "update store0 new_PersonTracker [det_a] = (tracker1, store0)"
  by (simp add: update_bootstrap new_PersonTracker_def tracker1_def new_track_def)

lemma call2: "update store0 tracker1 [det_b] = (tracker2, store0)"
  by (simp add: update_eval tracker1_def tracker2_def)

lemma call3: "update store0 tracker2 [det_b] = (tracker3, store3)"
  by (simp add: update_eval tracker2_def tracker3_def store3_def)

lemma call4_empty:
  "update store3 tracker3 [] =
     (\<lparr>tracked = [\<lparr>pid = 1, bbox = 1, score = 8 / 10, age = 2, velocity = (700, 0)\<rparr>,
                  \<lparr>pid = 2, bbox = 1, score = 8 / 10, age = 1, velocity = (0, 0)\<rparr>],
       nextId = 3\<rparr>, store4)"
  by (simp add: update_eval tracker3_def store3_def store4_def upt_rec [of 0] upt_rec [of 1])

lemma call4_det:
  "update store3 tracker3 [det_b] =
     (\<lparr>tracked = [\<lparr>pid = 1, bbox = 1, score = 8 / 10, age = 2, velocity = (700, 0)\<rparr>,
                  \<lparr>pid = 2, bbox = 1, score = 8 / 10, age = 0, velocity = (0, 0)\<rparr>],
       nextId = 3\<rparr>, store4)"
  by (simp add: update_eval tracker3_def store3_def store4_def upt_rec [of 0] upt_rec [of 1])

lemma three_calls:
  "observed_ids store0 new_PersonTracker [(id, [det_a]), (id, [det_b]), (id, [det_b])]
     = [[1], [1], [1, 2]]"
  by (simp add: observed_ids_def call1 call2 call3)
     (simp add: tracker1_def tracker2_def tracker3_def)

subsection \<open>The ids of the tracks\<close>

lemma pid_map2_new_track_comp:
  "map (pid \<circ> (\<lambda>(x, y). new_track x y)) (zip [n..<n + length ds] ds) = [n..<n + length ds]"
  using pid_map2_new_track [of n ds] by simp

lemma update_ids:
  assumes "ids_ok s"
  shows "\<exists>surv. map pid (tracked (fst (update h s detections)))
                  = surv @ [nextId s..<nextId (fst (update h s detections))]
               \<and> set surv \<subseteq> pid ` set (tracked s)
               \<and> sorted_wrt (<) surv"
    and "nextId s \<le> nextId (fst (update h s detections))"
proof -
  let ?ds = "personDetections detections"
  let ?aged = "aged_tracks h (tracked s) ?ds"
  let ?new = "unmatched_detections h (tracked s) ?ds"
  show "nextId s \<le> nextId (fst (update h s detections))"
    by (cases "tracked s = []") (simp_all add: update_bootstrap update_tracks Let_def)
  show "\<exists>surv. map pid (tracked (fst (update h s detections)))
                  = surv @ [nextId s..<nextId (fst (update h s detections))]
               \<and> set surv \<subseteq> pid ` set (tracked s)
               \<and> sorted_wrt (<) surv"
  proof (cases "tracked s = []")
    case True
    then show ?thesis
      by (simp add: update_bootstrap pid_map2_new_track_comp)
  next
    case False
    let ?surv = "map pid (filter (\<lambda>t. age t < maxAge) ?aged)"
    have out: "map pid (tracked (fst (update h s detections)))
               = ?surv @ [nextId s..<nextId (fst (update h s detections))]"
      using False by (simp add: update_tracks Let_def pid_map2_new_track_comp)
    have "set ?surv \<subseteq> set (map pid ?aged)" by auto
    then have sub: "set ?surv \<subseteq> pid ` set (tracked s)"
      by (simp add: aged_tracks_pid)
    have "sorted_wrt (<) (map pid ?aged)"
      using assms by (simp add: ids_ok_def aged_tracks_pid)
    then have "sorted_wrt (\<lambda>a b. pid a < pid b) ?aged"
      by (simp add: sorted_wrt_map)
    then have "sorted_wrt (\<lambda>a b. pid a < pid b) (filter (\<lambda>t. age t < maxAge) ?aged)"
      by (rule sorted_wrt_filter)
    then have "sorted_wrt (<) ?surv"
      by (simp add: sorted_wrt_map)
    with out sub show ?thesis by blast
  qed
qed

lemma update_ids_ok:
  assumes "ids_ok s"
  shows "ids_ok (fst (update h s detections))"
proof -
  let ?s' = "fst (update h s detections)"
  obtain surv where surv: "map pid (tracked ?s') = surv @ [nextId s..<nextId ?s']"
      "set surv \<subseteq> pid ` set (tracked s)" "sorted_wrt (<) surv"
    using update_ids(1) [OF assms, of h detections] by blast
  have le: "nextId s \<le> nextId ?s'"
    using update_ids(2) [OF assms] .
  have below: "x < nextId s" if "x \<in> set surv" for x
    using that surv(2) assms by (auto simp: ids_ok_def)
  have "sorted_wrt (<) (surv @ [nextId s..<nextId ?s'])"
    using surv(3) below by (fastforce simp: sorted_wrt_append)
  moreover have "x < nextId ?s'" if "x \<in> set (surv @ [nextId s..<nextId ?s'])" for x
    using that below le by fastforce
  ultimately have "sorted_wrt (<) (map pid (tracked ?s'))"
    and "\<forall>x \<in> set (map pid (tracked ?s')). x < nextId ?s'"
    using surv(1) by auto
  then show ?thesis by (simp add: ids_ok_def)
qed

lemma ids_ok_new: "ids_ok new_PersonTracker"
  by (simp add: ids_ok_def new_PersonTracker_def)

lemma final_state_ids_ok:
  "ids_ok s \<Longrightarrow> ids_ok (fst (final_state h s fs))"
proof (induction fs arbitrary: h s)
  case Nil
  then show ?case by simp
next
  case (Cons f fs)
  obtain env detections where f: "f = (env, detections)" by (cases f)
  obtain s' h' where u: "update (env h) s detections = (s', h')"
    by (cases "update (env h) s detections")
  have "ids_ok s'" using update_ids_ok [OF Cons.prems, of "env h" detections] u by simp
  then show ?case using Cons.IH [of s' h'] by (simp add: f u)
qed

lemma final_state_nextId_mono:
  "ids_ok s \<Longrightarrow> nextId s \<le> nextId (fst (final_state h s fs))"
proof (induction fs arbitrary: h s)
  case Nil
  then show ?case by simp
next
  case (Cons f fs)
  obtain env detections where f: "f = (env, detections)" by (cases f)
  obtain s' h' where u: "update (env h) s detections = (s', h')"
    by (cases "update (env h) s detections")
  have ok: "ids_ok s'" using update_ids_ok [OF Cons.prems, of "env h" detections] u by simp
  have "nextId s \<le> nextId s'"
    using update_ids(2) [OF Cons.prems, of "env h" detections] u by simp
  then show ?case using Cons.IH [OF ok, of h'] by (simp add: f u)
qed

subsection \<open>Runs\<close>

lemma set_seen_order: "set (seen_order acc xs) = set acc \<union> set xs"
  by (induction xs arbitrary: acc) auto

lemma seen_order_append: "seen_order acc (xs @ ys) = seen_order (seen_order acc xs) ys"
  by (induction xs arbitrary: acc) auto

lemma seen_order_known: "set xs \<subseteq> set acc \<Longrightarrow> seen_order acc xs = acc"
  by (induction xs arbitrary: acc) auto

lemma seen_order_fresh:
  "distinct xs \<Longrightarrow> set xs \<inter> set acc = {} \<Longrightarrow> seen_order acc xs = acc @ xs"
  by (induction xs arbitrary: acc) auto

lemma observed_ids_Cons:
  "observed_ids h s ((env, detections) # fs) =
     map pid (tracked (fst (update (env h) s detections)))
     # observed_ids (snd (update (env h) s detections)) (fst (update (env h) s detections)) fs"
  by (simp add: observed_ids_def split_beta)

lemma assigned_ids_Cons:
  "assigned_ids h s ((env, detections) # fs) =
     [nextId s..<nextId (fst (update (env h) s detections))]
     # assigned_ids (snd (update (env h) s detections)) (fst (update (env h) s detections)) fs"
  by (simp add: split_beta)

lemma final_state_Cons:
  "final_state h s ((env, detections) # fs) =
     final_state (snd (update (env h) s detections)) (fst (update (env h) s detections)) fs"
  by (simp add: split_beta)

lemma observed_ids_Nil [simp]: "observed_ids h s [] = []"
  by (simp add: observed_ids_def)

lemma length_observed_ids [simp]: "length (observed_ids h s fs) = length fs"
proof (induction fs arbitrary: h s)
  case Nil
  show ?case by simp
next
  case (Cons f fs)
  then show ?case by (cases f) (simp add: observed_ids_Cons)
qed

lemma first_seen_sorted:
  assumes "ids_ok s" and "sorted_wrt (<) acc" and "\<forall>a \<in> set acc. a < nextId s"
    and "acc = [] \<or> pid ` set (tracked s) \<subseteq> set acc"
  shows "sorted_wrt (<) (seen_order acc (concat (observed_ids h s fs)))"
  using assms
proof (induction fs arbitrary: h s acc)
  case Nil
  then show ?case by simp
next
  case (Cons f fs)
  obtain env detections where f: "f = (env, detections)" by (cases f)
  let ?s' = "fst (update (env h) s detections)"
  let ?h' = "snd (update (env h) s detections)"
  let ?out = "map pid (tracked ?s')"
  let ?new = "[nextId s..<nextId ?s']"
  obtain surv where surv: "?out = surv @ ?new" "set surv \<subseteq> pid ` set (tracked s)"
    using update_ids(1) [OF Cons.prems(1), of "env h" detections] by blast
  have le: "nextId s \<le> nextId ?s'"
    using update_ids(2) [OF Cons.prems(1)] .
  have ok': "ids_ok ?s'"
    using update_ids_ok [OF Cons.prems(1)] .
  have sorted_out: "sorted_wrt (<) ?out" and below_out: "\<forall>x \<in> set ?out. x < nextId ?s'"
    using ok' by (auto simp: ids_ok_def)
  let ?acc' = "seen_order acc ?out"
  have acc': "sorted_wrt (<) ?acc' \<and> (\<forall>a \<in> set ?acc'. a < nextId ?s')"
  proof (cases "acc = []")
    case True
    have "distinct ?out" using sorted_out by (simp add: strict_sorted_iff)
    then have "?acc' = ?out" using True seen_order_fresh [of ?out "[]"] by simp
    then show ?thesis using sorted_out below_out by simp
  next
    case False
    then have known: "pid ` set (tracked s) \<subseteq> set acc" using Cons.prems(4) by simp
    have "seen_order acc surv = acc"
      using surv(2) known by (intro seen_order_known) blast
    moreover have "seen_order acc ?new = acc @ ?new"
      using Cons.prems(3) by (intro seen_order_fresh) auto
    ultimately have eq: "?acc' = acc @ ?new"
      by (simp add: surv(1) seen_order_append)
    have "sorted_wrt (<) (acc @ ?new)"
      using Cons.prems(2,3) by (fastforce simp: sorted_wrt_append)
    moreover have "\<forall>a \<in> set (acc @ ?new). a < nextId ?s'"
      using Cons.prems(3) le by fastforce
    ultimately show ?thesis using eq by simp
  qed
  have "pid ` set (tracked ?s') \<subseteq> set ?acc'"
    by (auto simp: set_seen_order)
  then have "sorted_wrt (<) (seen_order ?acc' (concat (observed_ids ?h' ?s' fs)))"
    using Cons.IH [OF ok', of ?acc' ?h'] acc' by blast
  then show ?case
    by (simp add: f observed_ids_Cons seen_order_append)
qed

lemma gone_stays_gone:
  assumes "ids_ok s" and "x < nextId s" and "x \<notin> pid ` set (tracked s)"
  shows "\<forall>out \<in> set (observed_ids h s fs). x \<notin> set out"
  using assms
proof (induction fs arbitrary: h s)
  case Nil
  show ?case by simp
next
  case (Cons f fs)
  obtain env detections where f: "f = (env, detections)" by (cases f)
  let ?s' = "fst (update (env h) s detections)"
  let ?h' = "snd (update (env h) s detections)"
  obtain surv where surv: "map pid (tracked ?s') = surv @ [nextId s..<nextId ?s']"
      "set surv \<subseteq> pid ` set (tracked s)"
    using update_ids(1) [OF Cons.prems(1), of "env h" detections] by blast
  have le: "nextId s \<le> nextId ?s'"
    using update_ids(2) [OF Cons.prems(1)] .
  have ok': "ids_ok ?s'"
    using update_ids_ok [OF Cons.prems(1)] .
  have "x \<notin> set (surv @ [nextId s..<nextId ?s'])"
    using surv(2) Cons.prems(2,3) by auto
  then have out: "x \<notin> set (map pid (tracked ?s'))"
    using surv(1) by simp
  then have "x \<notin> pid ` set (tracked ?s')" by simp
  moreover have "x < nextId ?s'" using Cons.prems(2) le by simp
  ultimately have "\<forall>out \<in> set (observed_ids ?h' ?s' fs). x \<notin> set out"
    using Cons.IH [OF ok'] by blast
  then show ?case using out by (simp add: f observed_ids_Cons)
qed

lemma observed_below:
  assumes "ids_ok s"
  shows "\<forall>out \<in> set (observed_ids h s fs). \<forall>x \<in> set out. x < nextId (fst (final_state h s fs))"
  using assms
proof (induction fs arbitrary: h s)
  case Nil
  show ?case by simp
next
  case (Cons f fs)
  obtain env detections where f: "f = (env, detections)" by (cases f)
  let ?s' = "fst (update (env h) s detections)"
  let ?h' = "snd (update (env h) s detections)"
  have ok': "ids_ok ?s'"
    using update_ids_ok [OF Cons.prems(1)] .
  have "\<forall>x \<in> set (map pid (tracked ?s')). x < nextId ?s'"
    using ok' by (auto simp: ids_ok_def)
  moreover have "nextId ?s' \<le> nextId (fst (final_state ?h' ?s' fs))"
    using final_state_nextId_mono [OF ok'] .
  ultimately have "\<forall>x \<in> set (map pid (tracked ?s')). x < nextId (fst (final_state ?h' ?s' fs))"
    by fastforce
  then show ?case
    using Cons.IH [OF ok', of ?h']
    by (simp add: f observed_ids_Cons final_state_Cons del: final_state.simps)
qed

lemma observed_ids_append:
  "observed_ids h s (fs1 @ fs2) =
     observed_ids h s fs1
     @ observed_ids (snd (final_state h s fs1)) (fst (final_state h s fs1)) fs2"
proof (induction fs1 arbitrary: h s)
  case Nil
  show ?case by simp
next
  case (Cons f fs1)
  obtain env detections where f: "f = (env, detections)" by (cases f)
  show ?case
    using Cons.IH by (simp add: f observed_ids_Cons final_state_Cons del: final_state.simps)
qed

lemma assigned_concat:
  assumes "ids_ok s"
  shows "concat (assigned_ids h s fs) = [nextId s..<nextId (fst (final_state h s fs))]"
  using assms
proof (induction fs arbitrary: h s)
  case Nil
  show ?case by simp
next
  case (Cons f fs)
  obtain env detections where f: "f = (env, detections)" by (cases f)
  let ?s' = "fst (update (env h) s detections)"
  let ?h' = "snd (update (env h) s detections)"
  let ?fin = "fst (final_state ?h' ?s' fs)"
  have ok': "ids_ok ?s'"
    using update_ids_ok [OF Cons.prems(1)] .
  have le1: "nextId s \<le> nextId ?s'"
    using update_ids(2) [OF Cons.prems(1)] .
  have le2: "nextId ?s' \<le> nextId ?fin"
    using final_state_nextId_mono [OF ok'] .
  obtain k where k: "nextId ?fin = nextId ?s' + k"
    using le2 le_Suc_ex by blast
  have "[nextId s..<nextId ?s' + k] = [nextId s..<nextId ?s'] @ [nextId ?s'..<nextId ?s' + k]"
    using le1 by (rule upt_add_eq_append)
  then have "[nextId s..<nextId ?s'] @ [nextId ?s'..<nextId ?fin] = [nextId s..<nextId ?fin]"
    using k by simp
  then show ?case
    using Cons.IH [OF ok', of ?h']
    by (simp add: f assigned_ids_Cons final_state_Cons
        del: final_state.simps assigned_ids.simps)
qed

lemma observed_assigned:
  assumes "ids_ok s"
  shows "\<forall>out \<in> set (observed_ids h s fs). \<forall>x \<in> set out.
           x \<in> pid ` set (tracked s) \<or> x \<in> set (concat (assigned_ids h s fs))"
  using assms
proof (induction fs arbitrary: h s)
  case Nil
  show ?case by simp
next
  case (Cons f fs)
  obtain env detections where f: "f = (env, detections)" by (cases f)
  let ?s' = "fst (update (env h) s detections)"
  let ?h' = "snd (update (env h) s detections)"
  let ?new = "[nextId s..<nextId ?s']"
  obtain surv where surv: "map pid (tracked ?s') = surv @ ?new"
      "set surv \<subseteq> pid ` set (tracked s)"
    using update_ids(1) [OF Cons.prems(1), of "env h" detections] by blast
  have ok': "ids_ok ?s'"
    using update_ids_ok [OF Cons.prems(1)] .
  have here: "x \<in> pid ` set (tracked s) \<or> x \<in> set ?new" if "x \<in> pid ` set (tracked ?s')" for x
  proof -
    from that have "x \<in> set (map pid (tracked ?s'))" by simp
    then have "x \<in> set surv \<or> x \<in> set ?new" unfolding surv(1) by simp
    then show ?thesis using surv(2) by blast
  qed
  have later: "x \<in> pid ` set (tracked s) \<or> x \<in> set ?new
                 \<or> x \<in> set (concat (assigned_ids ?h' ?s' fs))"
    if "out \<in> set (observed_ids ?h' ?s' fs)" "x \<in> set out" for out x
    using Cons.IH [OF ok', of ?h'] that here by blast
  show ?case
    unfolding f observed_ids_Cons assigned_ids_Cons
    using here later by auto
qed

lemma observed_by_call:
  assumes "ids_ok s"
  shows "list_all2 (\<lambda>out new. \<exists>surv. out = surv @ new)
           (observed_ids h s fs) (assigned_ids h s fs)"
  using assms
proof (induction fs arbitrary: h s)
  case Nil
  show ?case by simp
next
  case (Cons f fs)
  obtain env detections where f: "f = (env, detections)" by (cases f)
  let ?s' = "fst (update (env h) s detections)"
  let ?h' = "snd (update (env h) s detections)"
  have ok': "ids_ok ?s'"
    using update_ids_ok [OF Cons.prems(1)] .
  have "\<exists>surv. map pid (tracked ?s') = surv @ [nextId s..<nextId ?s']"
    using update_ids(1) [OF Cons.prems(1), of "env h" detections] by blast
  then show ?case
    unfolding f observed_ids_Cons assigned_ids_Cons
    using Cons.IH [OF ok', of ?h'] by simp
qed

lemma observed_distinct:
  assumes "ids_ok s"
  shows "\<forall>out \<in> set (observed_ids h s fs). sorted_wrt (<) out"
  using assms
proof (induction fs arbitrary: h s)
  case Nil
  show ?case by simp
next
  case (Cons f fs)
  obtain env detections where f: "f = (env, detections)" by (cases f)
  let ?s' = "fst (update (env h) s detections)"
  let ?h' = "snd (update (env h) s detections)"
  have ok': "ids_ok ?s'"
    using update_ids_ok [OF Cons.prems(1)] .
  then have "sorted_wrt (<) (map pid (tracked ?s'))"
    by (simp add: ids_ok_def)
  then show ?case
    unfolding f observed_ids_Cons
    using Cons.IH [OF ok', of ?h'] by simp
qed

lemma never_reissued:
  assumes ok: "ids_ok s"
    and split: "observed_ids h s fs = pre @ out # post"
    and seen: "x \<in> \<Union> (set ` set pre)"
    and gone: "x \<notin> set out"
  shows "x \<notin> \<Union> (set ` set post)"
proof -
  let ?n = "length pre"
  let ?fs1 = "take ?n fs"
  let ?fs2 = "drop ?n fs"
  let ?s1 = "fst (final_state h s ?fs1)"
  let ?h1 = "snd (final_state h s ?fs1)"
  have len: "length fs = length pre + Suc (length post)"
    using split length_observed_ids [of h s fs] by simp
  have "observed_ids h s fs = observed_ids h s ?fs1 @ observed_ids ?h1 ?s1 ?fs2"
    using observed_ids_append [of h s ?fs1 ?fs2] by simp
  moreover have "length (observed_ids h s ?fs1) = length pre"
    using len by simp
  ultimately have pre: "observed_ids h s ?fs1 = pre"
    and rest: "observed_ids ?h1 ?s1 ?fs2 = out # post"
    using split by (simp_all add: append_eq_append_conv)
  from rest obtain f fs3 where fs2: "?fs2 = f # fs3"
    by (cases ?fs2) auto
  obtain env detections where f: "f = (env, detections)" by (cases f)
  let ?s2 = "fst (update (env ?h1) ?s1 detections)"
  let ?h2 = "snd (update (env ?h1) ?s1 detections)"
  have out: "out = map pid (tracked ?s2)" and post: "post = observed_ids ?h2 ?s2 fs3"
    using rest by (simp_all add: fs2 f observed_ids_Cons)
  have ok1: "ids_ok ?s1"
    using final_state_ids_ok [OF ok] .
  have ok2: "ids_ok ?s2"
    using update_ids_ok [OF ok1] .
  have "x < nextId ?s1"
    using observed_below [OF ok, of h ?fs1] seen pre by auto
  moreover have "nextId ?s1 \<le> nextId ?s2"
    using update_ids(2) [OF ok1] .
  ultimately have "x < nextId ?s2" by simp
  moreover have "x \<notin> pid ` set (tracked ?s2)"
    using gone out by simp
  ultimately have "\<forall>out' \<in> set (observed_ids ?h2 ?s2 fs3). x \<notin> set out'"
    using gone_stays_gone [OF ok2] by blast
  then show ?thesis using post by auto
qed

subsection \<open>What the ageing loop writes\<close>

lemma aged_entry_refs:
  "bbox (ts[ti := (ts ! ti)\<lparr>age := age (ts ! ti) + 1\<rparr>] ! i) = bbox (ts ! i)"
  "velocity (ts[ti := (ts ! ti)\<lparr>age := age (ts ! ti) + 1\<rparr>] ! i) = velocity (ts ! i)"
proof -
  have "ts[ti := (ts ! ti)\<lparr>age := age (ts ! ti) + 1\<rparr>] ! i =
          (if i = ti \<and> ti < length ts then (ts ! ti)\<lparr>age := age (ts ! ti) + 1\<rparr> else ts ! i)"
    by (cases "ti < length ts") (auto simp: nth_list_update list_update_beyond)
  then show
    "bbox (ts[ti := (ts ! ti)\<lparr>age := age (ts ! ti) + 1\<rparr>] ! i) = bbox (ts ! i)"
    "velocity (ts[ti := (ts ! ti)\<lparr>age := age (ts ! ti) + 1\<rparr>] ! i) = velocity (ts ! i)"
    by auto
qed

lemma age_unmatched_store:
  "snd (age_unmatched m is ts h) a =
     Box (foldl fadd (b0 (h a)) (map (\<lambda>i. fst (velocity (ts ! i)))
                                  (filter (\<lambda>i. i \<notin> m \<and> bbox (ts ! i) = a) is)))
         (foldl fadd (b1 (h a)) (map (\<lambda>i. snd (velocity (ts ! i)))
                                  (filter (\<lambda>i. i \<notin> m \<and> bbox (ts ! i) = a) is)))
         (b2 (h a)) (b3 (h a))"
proof (induction "is" arbitrary: ts h)
  case Nil
  show ?case by simp
next
  case (Cons ti tis)
  show ?case
  proof (cases "ti \<in> m")
    case True
    then show ?thesis using Cons.IH [of ts h] by simp
  next
    case False
    let ?t = "ts ! ti"
    let ?ts = "ts[ti := ?t\<lparr>age := age ?t + 1\<rparr>]"
    let ?h1 = "set0 h (bbox ?t) (fadd (b0 (h (bbox ?t))) (fst (velocity ?t)))"
    let ?h2 = "set1 ?h1 (bbox ?t) (fadd (b1 (?h1 (bbox ?t))) (snd (velocity ?t)))"
    have step: "age_unmatched m (ti # tis) ts h = age_unmatched m tis ?ts ?h2"
      using False by (simp add: Let_def)
    have h2: "?h2 a =
        (if a = bbox ?t
         then Box (fadd (b0 (h a)) (fst (velocity ?t))) (fadd (b1 (h a)) (snd (velocity ?t)))
                  (b2 (h a)) (b3 (h a))
         else h a)"
      by (simp add: set0_def set1_def)
    show ?thesis
    proof (cases "a = bbox ?t")
      case True
      show ?thesis
        unfolding step Cons.IH [of ?ts ?h2] aged_entry_refs h2
        using False True by simp
    next
      case neq: False
      show ?thesis
        unfolding step Cons.IH [of ?ts ?h2] aged_entry_refs h2
        using False neq by auto
    qed
  qed
qed

lemma unmatched_unchanged:
  assumes "j < length ts" and "j \<notin> trackIdx ` set (committed h ts ds)"
  shows "fst (match_phase h ts ds) ! j = ts ! j"
  using match_phase_nth [OF assms(1), of h ds] find_committed_None [of j h ts ds] assms(2)
  by simp

lemma age_phase_store:
  "snd (age_phase h ts ds) a =
     Box (foldl fadd (b0 (h a)) (map (\<lambda>i. fst (velocity (ts ! i))) (sharing_unmatched h ts ds a)))
         (foldl fadd (b1 (h a)) (map (\<lambda>i. snd (velocity (ts ! i))) (sharing_unmatched h ts ds a)))
         (b2 (h a)) (b3 (h a))"
proof -
  let ?ts1 = "fst (match_phase h ts ds)"
  let ?m = "trackIdx ` set (committed h ts ds)"
  have a: "snd (age_phase h ts ds) = snd (age_unmatched ?m [0..<length ts] ?ts1 h)"
    using match_phase_sets [of h ts ds]
    by (simp add: age_phase_def split_beta match_phase_length)
  have f: "filter (\<lambda>i. i \<notin> ?m \<and> bbox (?ts1 ! i) = a) [0..<length ts]
           = sharing_unmatched h ts ds a"
    unfolding sharing_unmatched_def
    by (rule filter_cong) (auto simp: unmatched_unchanged)
  have v: "map (\<lambda>i. g (velocity (?ts1 ! i))) (sharing_unmatched h ts ds a)
           = map (\<lambda>i. g (velocity (ts ! i))) (sharing_unmatched h ts ds a)" for g
    by (rule map_cong) (auto simp: sharing_unmatched_def unmatched_unchanged)
  show ?thesis
    unfolding a age_unmatched_store f v ..
qed

lemma sharing_unmatched_alone:
  assumes "j < length ts" and "j \<notin> trackIdx ` set (committed h ts ds)"
    and "\<forall>k < length ts. k \<noteq> j \<and> k \<notin> trackIdx ` set (committed h ts ds)
           \<longrightarrow> bbox (ts ! k) \<noteq> bbox (ts ! j)"
  shows "sharing_unmatched h ts ds (bbox (ts ! j)) = [j]"
proof -
  have "filter (\<lambda>i. i \<notin> trackIdx ` set (committed h ts ds) \<and> bbox (ts ! i) = bbox (ts ! j))
          [0..<length ts] = filter (\<lambda>i. i = j) [0..<length ts]"
    using assms by (intro filter_cong) auto
  also have "\<dots> = [j]"
    using assms(1) by (induction ts rule: rev_induct) (auto simp: less_Suc_eq)
  finally show ?thesis by (simp add: sharing_unmatched_def)
qed

lemma sharing_unmatched_none:
  assumes "\<forall>k < length ts. k \<notin> trackIdx ` set (committed h ts ds) \<longrightarrow> bbox (ts ! k) \<noteq> a"
  shows "sharing_unmatched h ts ds a = []"
  using assms by (auto simp: sharing_unmatched_def filter_empty_conv)

subsection \<open>Matched and unmatched tracks\<close>

lemma find_distinct_key:
  "distinct (map f xs) \<Longrightarrow> x \<in> set xs \<Longrightarrow> find (\<lambda>y. f y = f x) xs = Some x"
  by (induction xs) force+

lemma committed_find:
  "c \<in> set (committed h ts ds) \<Longrightarrow>
   find (\<lambda>c'. trackIdx c' = trackIdx c) (committed h ts ds) = Some c"
  using find_distinct_key [of trackIdx "committed h ts ds" c]
    commits_distinct_tracks [of "sort_costs (build_costs h ts ds)" "{}" "{}"]
  by (simp add: committed_def)

lemma committed_in_range:
  "c \<in> set (committed h ts ds) \<Longrightarrow> trackIdx c < length ts \<and> detIdx c < length ds"
  using committed_subset [of h ts ds] by (auto simp: set_build_costs)

lemma update_store:
  "tracked s \<noteq> [] \<Longrightarrow>
   snd (update h s detections) = snd (age_phase h (tracked s) (personDetections detections))"
  by (simp add: update_tracks Let_def)

lemma call2_committed:
  "committed store0 (tracked tracker1) [det_b]
     = [\<lparr>trackIdx = 0, detIdx = 0, cscore = rnd (77 / 200)\<rparr>]"
  by (simp add: committed_def build_costs_def sort_costs_def predicted_box_def fadd_def
      scenario_scores scenario_retained tracker1_def)

text \<open>
  For every pair that the greedy loop commits, the track at the pair's position has,
  after the matching and ageing loops, its old id, the velocity
  \<open>detection position - old position\<close> (rounded) with both positions read from the store as it
  is when \<open>update\<close> is called (the predicted box plays no part), the detection's
  array as its box, the detection's score, and age 0; this track is in the returned
  list.  The contents of its box are those the detection was passed with whenever no
  unmatched track refers to the same array.
\<close>

lemma match_applied:
  assumes "c \<in> set (committed h (tracked s) (personDetections detections))"
  shows
    "(let ds = personDetections detections;
          t = tracked s ! trackIdx c;
          d = ds ! detIdx c;
          t' = aged_tracks h (tracked s) ds ! trackIdx c;
          h' = snd (update h s detections)
      in trackIdx c < length (tracked s) \<and> detIdx c < length ds
       \<and> pid t' = pid t
       \<and> velocity t' = (fsub (b0 (h (d_bbox d))) (b0 (h (bbox t))),
                        fsub (b1 (h (d_bbox d))) (b1 (h (bbox t))))
       \<and> bbox t' = d_bbox d
       \<and> score t' = d_score d
       \<and> age t' = 0
       \<and> t' \<in> set (tracked (fst (update h s detections)))
       \<and> h' (bbox t') = h' (d_bbox d)
       \<and> ((\<forall>k < length (tracked s).
               k \<notin> trackIdx ` set (committed h (tracked s) ds)
               \<longrightarrow> bbox (tracked s ! k) \<noteq> d_bbox d)
            \<longrightarrow> h' (d_bbox d) = h (d_bbox d)))"
proof -
  let ?ds = "personDetections detections"
  let ?t = "tracked s ! trackIdx c"
  let ?d = "?ds ! detIdx c"
  let ?t' = "aged_tracks h (tracked s) ?ds ! trackIdx c"
  let ?h' = "snd (update h s detections)"
  have range: "trackIdx c < length (tracked s)" "detIdx c < length ?ds"
    using committed_in_range [OF assms] by simp_all
  then have ne: "tracked s \<noteq> []" by auto
  have t': "?t' = apply_match h ?t ?d"
    using aged_tracks_nth [OF range(1), of h ?ds] committed_find [OF assms] by simp
  have "?t' \<in> set (aged_tracks h (tracked s) ?ds)"
    using range(1) by (simp add: aged_tracks_length)
  moreover have "age ?t' = 0"
    by (simp add: t' apply_match_def)
  ultimately have "?t' \<in> set (filter (\<lambda>t. age t < maxAge) (aged_tracks h (tracked s) ?ds))"
    by (simp add: maxAge_def)
  then have mem: "?t' \<in> set (tracked (fst (update h s detections)))"
    by (simp add: update_tracks [OF ne] Let_def)
  have store: "?h' (d_bbox ?d) = h (d_bbox ?d)"
    if "\<forall>k < length (tracked s).
          k \<notin> trackIdx ` set (committed h (tracked s) ?ds)
          \<longrightarrow> bbox (tracked s ! k) \<noteq> d_bbox ?d"
    using sharing_unmatched_none [OF that]
    by (cases "h (d_bbox ?d)") (simp add: update_store [OF ne] age_phase_store)
  show ?thesis
    unfolding Let_def
    using range mem store by (simp add: t' apply_match_def)
qed

lemma match_applied_example:
  "\<lparr>trackIdx = 0, detIdx = 0, cscore = rnd (77 / 200)\<rparr>
     \<in> set (committed store0 (tracked tracker1) (personDetections [det_b]))
   \<and> velocity (aged_tracks store0 (tracked tracker1) (personDetections [det_b]) ! 0) = (700, 0)
   \<and> bbox (aged_tracks store0 (tracked tracker1) (personDetections [det_b]) ! 0) = d_bbox det_b
   \<and> age (aged_tracks store0 (tracked tracker1) (personDetections [det_b]) ! 0) = 0"
proof -
  have c: "\<lparr>trackIdx = 0, detIdx = 0, cscore = rnd (77 / 200)\<rparr>
     \<in> set (committed store0 (tracked tracker1) (personDetections [det_b]))"
    by (simp add: call2_committed)
  show ?thesis
    using c match_applied [OF c] by (simp add: Let_def tracker1_def fsub_def)
qed

text \<open>
  A track that no committed pair mentions keeps all its fields but its age, which
  grows by 1.  The ageing loop adds to its box the velocity of every unmatched track
  that refers to the same array, one rounded addition after the other; when the track
  is the only such track, its box moves by its own velocity, and its width and height
  stay as they are in any case.
\<close>

lemma unmatched_track_coasts:
  assumes "j < length (tracked s)"
    and "j \<notin> trackIdx ` set (committed h (tracked s) (personDetections detections))"
  shows
    "(let ds = personDetections detections;
          t = tracked s ! j;
          t' = aged_tracks h (tracked s) ds ! j;
          h' = snd (update h s detections);
          sharing = sharing_unmatched h (tracked s) ds (bbox t)
      in t' = t\<lparr>age := age t + 1\<rparr>
       \<and> h' (bbox t) =
           Box (foldl fadd (b0 (h (bbox t))) (map (\<lambda>i. fst (velocity (tracked s ! i))) sharing))
               (foldl fadd (b1 (h (bbox t))) (map (\<lambda>i. snd (velocity (tracked s ! i))) sharing))
               (b2 (h (bbox t))) (b3 (h (bbox t)))
       \<and> ((\<forall>k < length (tracked s).
               k \<noteq> j \<and> k \<notin> trackIdx ` set (committed h (tracked s) ds)
               \<longrightarrow> bbox (tracked s ! k) \<noteq> bbox t)
            \<longrightarrow> h' (bbox t) =
              Box (fadd (b0 (h (bbox t))) (fst (velocity t)))
                  (fadd (b1 (h (bbox t))) (snd (velocity t)))
                  (b2 (h (bbox t))) (b3 (h (bbox t)))))"
proof -
  let ?ds = "personDetections detections"
  have ne: "tracked s \<noteq> []" using assms(1) by auto
  have aged: "aged_tracks h (tracked s) ?ds ! j = (tracked s ! j)\<lparr>age := age (tracked s ! j) + 1\<rparr>"
    using aged_tracks_nth [OF assms(1), of h ?ds]
      find_committed_None [of j h "tracked s" ?ds] assms(2) by simp
  have alone: "sharing_unmatched h (tracked s) ?ds (bbox (tracked s ! j)) = [j]"
    if "\<forall>k < length (tracked s).
          k \<noteq> j \<and> k \<notin> trackIdx ` set (committed h (tracked s) ?ds)
          \<longrightarrow> bbox (tracked s ! k) \<noteq> bbox (tracked s ! j)"
    using sharing_unmatched_alone [OF assms that] .
  show ?thesis
    unfolding Let_def
    using aged alone by (auto simp: update_store [OF ne] age_phase_store)
qed

lemma sort_costs_walked_any:
  "sorted_wrt enumerated_before cs \<Longrightarrow> sorted_wrt walked_before (sort_costs cs)"
proof -
  assume e: "sorted_wrt enumerated_before cs"
  have "walked_before = (\<lambda>a b. - cscore a < - cscore b
          \<or> (- cscore a = - cscore b \<and> enumerated_before a b))"
    by (auto simp: walked_before_def fun_eq_iff)
  then show ?thesis
    unfolding sort_costs_def
    using sort_key_walked [OF e, of "\<lambda>c. - cscore c"] by simp
qed

lemma walked_distinct: "sorted_wrt walked_before xs \<Longrightarrow> distinct xs"
  by (induction xs) (auto simp: walked_before_irrefl)

lemma commits_split:
  "commits (pre @ c # post) {} {} =
     commits pre {} {} @
     commits (c # post) (trackIdx ` set (commits pre {} {})) (detIdx ` set (commits pre {} {}))"
  using commits_append [of pre "c # post" "{}" "{}"] by simp

lemma commits_before:
  assumes "distinct (pre @ c # post)"
  shows "filter (\<lambda>c'. c' \<in> set pre) (commits (pre @ c # post) {} {}) = commits pre {} {}"
proof -
  let ?T = "trackIdx ` set (commits pre {} {})"
  let ?D = "detIdx ` set (commits pre {} {})"
  have "set (commits (c # post) ?T ?D) \<subseteq> set (c # post)"
    by (rule commits_subset)
  then have "filter (\<lambda>c'. c' \<in> set pre) (commits (c # post) ?T ?D) = []"
    using assms by (auto simp: filter_empty_conv)
  moreover have "filter (\<lambda>c'. c' \<in> set pre) (commits pre {} {}) = commits pre {} {}"
    using commits_subset [of pre "{}" "{}"] by (auto simp: filter_id_conv)
  ultimately show ?thesis
    by (simp add: commits_split)
qed

lemma commits_rule:
  assumes d: "distinct xs" and s: "xs = pre @ c # post"
  shows "c \<in> set (commits xs {} {}) \<longleftrightarrow>
         (\<forall>c' \<in> set (commits xs {} {}). c' \<in> set pre \<longrightarrow>
            trackIdx c' \<noteq> trackIdx c \<and> detIdx c' \<noteq> detIdx c)"
proof -
  let ?T = "trackIdx ` set (commits pre {} {})"
  let ?D = "detIdx ` set (commits pre {} {})"
  have d': "distinct (pre @ c # post)" using d s by simp
  have pre: "set (commits pre {} {}) = {c' \<in> set (commits xs {} {}). c' \<in> set pre}"
    using commits_before [OF d'] s by (metis set_filter)
  have a: "c \<notin> set (commits pre {} {})"
    using commits_subset [of pre "{}" "{}"] d' by auto
  have b: "c \<notin> set (commits post m md)" for m md
    using commits_subset [of post m md] d' by auto
  have "c \<in> set (commits xs {} {}) \<longleftrightarrow> \<not> (trackIdx c \<in> ?T \<or> detIdx c \<in> ?D)"
    using a b by (auto simp: s commits_split)
  also have "\<dots> \<longleftrightarrow> (\<forall>c' \<in> set (commits pre {} {}).
                  trackIdx c' \<noteq> trackIdx c \<and> detIdx c' \<noteq> detIdx c)"
    by (force simp: image_iff)
  finally show ?thesis unfolding pre by auto
qed

lemma commits_find:
  "c \<in> set (commits xs m md) \<Longrightarrow>
   find (\<lambda>c'. trackIdx c' = trackIdx c) (commits xs m md) = Some c"
  using find_distinct_key [of trackIdx "commits xs m md" c] commits_distinct_tracks [of xs m md]
  by simp

lemma greedy_committed_track:
  assumes "c \<in> set (commits xs {} {})" and "trackIdx c < length ts"
  shows "fst (greedy h ds xs ts {} {}) ! trackIdx c = apply_match h (ts ! trackIdx c) (ds ! detIdx c)"
  using greedy_nth [OF assms(2), of h ds xs "{}" "{}"] commits_find [OF assms(1)] by simp

lemma greedy_other_track:
  assumes "j < length ts" and "j \<notin> trackIdx ` set (commits xs {} {})"
  shows "fst (greedy h ds xs ts {} {}) ! j = ts ! j"
proof -
  have "find (\<lambda>c. trackIdx c = j) (commits xs {} {}) = None"
    using assms(2) by (auto simp: find_None_iff)
  then show ?thesis using greedy_nth [OF assms(1), of h ds xs "{}" "{}"] by simp
qed


subsection \<open>Where the rounding shows\<close>

text \<open>
  A predicted box \<open>[0, 0, 50, 20]\<close> and a detection \<open>[- 640, 0, 1000, 20]\<close>: in exact
  arithmetic the score is \<open>0.05 * 0.6 + 0.175 * 0.4 = 0.1\<close>, not above the threshold.
  In doubles \<open>1 - 0.825\<close> is \<open>0.17500000000000004\<close> and the score is
  \<open>0.10000000000000002\<close>, the double after \<open>0.1\<close>: the pair is retained.
\<close>

lemma score_just_above_threshold:
  "combinedScore (Box 0 0 50 20) (Box (- 640) 0 1000 20) = 7205759403792795 / 72057594037927936"
  "rnd (1 / 10) = 7205759403792794 / 72057594037927936"
  "rnd (1 / 10) < combinedScore (Box 0 0 50 20) (Box (- 640) 0 1000 20)"
  by (simp_all add: combinedScore_def iou_def centerDistance_def float_ops literal_doubles
      near_threshold_roundings sqrt_27225)

text \<open>
  Two tracks with the boxes \<open>[- 150, 0, 400, 400]\<close> and \<open>[- 150, - 50, 400, 50]\<close> and
  a detection \<open>[0, 0, 100, 100]\<close>: in exact arithmetic both pairs score \<open>29 / 80\<close>.
  In doubles the first scores \<open>0.3625\<close> and the second \<open>0.36250000000000004\<close>, the
  next double, so the second pair is walked first and committed.
\<close>

lemma close_scores:
  "combinedScore (Box (- 150) 0 400 400) (Box 0 0 100 100) = 6530219459687219 / 18014398509481984"
  "combinedScore (Box (- 150) (- 50) 400 50) (Box 0 0 100 100) = 6530219459687220 / 18014398509481984"
  by (simp_all add: combinedScore_def iou_def centerDistance_def float_ops literal_doubles
      close_scores_roundings sqrt_22500 sqrt_5625)

lemma walk_follows_doubles:
  "sort_costs
     [\<lparr>trackIdx = 0, detIdx = 0, cscore = combinedScore (Box (- 150) 0 400 400) (Box 0 0 100 100)\<rparr>,
      \<lparr>trackIdx = 1, detIdx = 0, cscore = combinedScore (Box (- 150) (- 50) 400 50) (Box 0 0 100 100)\<rparr>]
   = [\<lparr>trackIdx = 1, detIdx = 0, cscore = combinedScore (Box (- 150) (- 50) 400 50) (Box 0 0 100 100)\<rparr>,
      \<lparr>trackIdx = 0, detIdx = 0, cscore = combinedScore (Box (- 150) 0 400 400) (Box 0 0 100 100)\<rparr>]"
  by (simp add: sort_costs_def close_scores)

lemma close_scores_committed:
  "commits (sort_costs
     [\<lparr>trackIdx = 0, detIdx = 0, cscore = combinedScore (Box (- 150) 0 400 400) (Box 0 0 100 100)\<rparr>,
      \<lparr>trackIdx = 1, detIdx = 0, cscore = combinedScore (Box (- 150) (- 50) 400 50) (Box 0 0 100 100)\<rparr>])
     {} {}
   = [\<lparr>trackIdx = 1, detIdx = 0, cscore = combinedScore (Box (- 150) (- 50) 400 50) (Box 0 0 100 100)\<rparr>]"
  unfolding walk_follows_doubles by simp

text \<open>
  A point on the left edge of a box in exact arithmetic that the rounded scaling puts
  to the left of it: \<open>49 * (1 / 49)\<close> is \<open>0.9999999999999999\<close> and \<open>77 * (1280 / 308)\<close>
  is \<open>319.99999999999994\<close>.
\<close>

lemma scaled_point_left_of_edge:
  "fmul 49 (fdiv 1 49) = 9007199254740991 / 9007199254740992"
  "fmul 77 (fdiv 1280 308) = 5629499534213119 / 17592186044416"
  "h (bbox t) = Box 1 0 10 10 \<Longrightarrow> findPersonAtPoint h [t] 49 5 49 10 1 10 = None"
  "h (bbox t) = Box 320 0 100 100 \<Longrightarrow> findPersonAtPoint h [t] 77 30 308 360 1280 720 = None"
  by (simp_all add: findPersonAtPoint_def float_ops scale_roundings)

text \<open>
  Two equal boxes of width and height \<open>1.25\<close> at \<open>10^16\<close>: the computed right edge
  \<open>10^16 + 1.25\<close> is \<open>10^16 + 2\<close>, the computed intersection is \<open>2 * 2 = 4\<close> and the
  computed union \<open>1.5625 + 1.5625 - 4\<close> is negative.
\<close>

lemma far_store_sel [simp]:
  "far_store 0 = Box 10000000000000000 10000000000000000 (5 / 4) (5 / 4)"
  "far_store (Suc 0) = Box 10000000000000000 10000000000000000 (5 / 4) (5 / 4)"
  by (simp_all add: far_store_def)

lemma far_areas:
  "inter_area (Box 10000000000000000 10000000000000000 (5 / 4) (5 / 4))
              (Box 10000000000000000 10000000000000000 (5 / 4) (5 / 4)) = 4"
  "union_area (Box 10000000000000000 10000000000000000 (5 / 4) (5 / 4))
              (Box 10000000000000000 10000000000000000 (5 / 4) (5 / 4)) = - (7 / 8)"
  by (simp_all add: union_area_def inter_area_def float_ops cancellation_roundings)

lemma far_proximity:
  "spec_proximity (Box 10000000000000000 10000000000000000 (5 / 4) (5 / 4))
                  (Box 10000000000000000 10000000000000000 (5 / 4) (5 / 4)) = 1"
  by (simp add: spec_proximity_def float_ops cancellation_roundings)

lemma far_predicted:
  "predicted_box far_store far_track = Box 10000000000000000 10000000000000000 (5 / 4) (5 / 4)"
  "far_store (d_bbox far_det) = Box 10000000000000000 10000000000000000 (5 / 4) (5 / 4)"
  by (simp_all add: predicted_box_def far_track_def far_det_def fadd_def cancellation_roundings)

lemma far_scores:
  "pair_score far_store far_track far_det = rnd (4 / 10)"
  "spec_score far_store far_track far_det = - (2637822638888433 / 1125899906842624)"
proof -
  show "pair_score far_store far_track far_det = rnd (4 / 10)"
    by (simp add: pair_score_def far_predicted combinedScore_proximity iou_inter_area
        far_areas far_proximity float_ops literal_doubles cancellation_roundings)
  have "predicted_box far_store far_track =
          Box (fadd (b0 (far_store (bbox far_track))) (fst (velocity far_track)))
              (fadd (b1 (far_store (bbox far_track))) (snd (velocity far_track)))
              (b2 (far_store (bbox far_track))) (b3 (far_store (bbox far_track)))"
    by (simp add: predicted_box_def)
  then have "spec_score far_store far_track far_det =
      fadd (fmul (rnd (6 / 10)) (spec_iou (predicted_box far_store far_track) (far_store (d_bbox far_det))))
           (fmul (rnd (4 / 10)) (spec_proximity (predicted_box far_store far_track) (far_store (d_bbox far_det))))"
    by (simp add: spec_score_def Let_def)
  then show "spec_score far_store far_track far_det = - (2637822638888433 / 1125899906842624)"
    by (simp add: far_predicted spec_iou_def far_areas far_proximity float_ops literal_doubles
        cancellation_roundings)
qed

lemma far_costs:
  "build_costs far_store [far_track] [far_det]
     = [\<lparr>trackIdx = 0, detIdx = 0, cscore = rnd (4 / 10)\<rparr>]"
proof -
  have "combinedScore (predicted_box far_store far_track) (far_store (d_bbox far_det)) = rnd (4 / 10)"
    using far_scores(1) by (simp add: pair_score_def)
  moreover have "rnd (1 / 10) < rnd (4 / 10)"
    by (simp add: literal_doubles)
  ultimately show ?thesis
    by (simp add: build_costs_def)
qed

section \<open>The claims\<close>

text \<open>
  Claim C1.  Take any run of \<open>update\<close> calls on a new tracker, whatever the caller
  does to the store between the calls.  The ids of the returned lists, in the order of
  their first appearance, are strictly increasing, and the ids of each returned list are
  strictly increasing along the list, hence distinct.  An id that was returned by some
  call and is missing from the list of a later call is in no list returned after that.
  The ids handed out by the calls are \<open>1, 2, ...\<close> up to the counter, each once; every
  returned id is one of them, and every returned list ends with the ids its call
  handed out.
\<close>

theorem ids_unique_increasing:
  "sorted_wrt (<) (first_appearance (observed_ids h new_PersonTracker fs))
   \<and> (\<forall>out \<in> set (observed_ids h new_PersonTracker fs). sorted_wrt (<) out \<and> distinct out)
   \<and> (\<forall>pre out post x.
         observed_ids h new_PersonTracker fs = pre @ out # post
         \<and> x \<in> \<Union> (set ` set pre) \<and> x \<notin> set out
         \<longrightarrow> x \<notin> \<Union> (set ` set post))
   \<and> distinct (concat (assigned_ids h new_PersonTracker fs))
   \<and> concat (assigned_ids h new_PersonTracker fs)
        = [1..<nextId (fst (final_state h new_PersonTracker fs))]
   \<and> (\<forall>out \<in> set (observed_ids h new_PersonTracker fs).
         set out \<subseteq> set (concat (assigned_ids h new_PersonTracker fs)))
   \<and> list_all2 (\<lambda>out new. \<exists>surv. out = surv @ new)
        (observed_ids h new_PersonTracker fs) (assigned_ids h new_PersonTracker fs)"
proof -
  let ?s = new_PersonTracker
  have ok: "ids_ok ?s" by (rule ids_ok_new)
  have a: "sorted_wrt (<) (first_appearance (observed_ids h ?s fs))"
    unfolding first_appearance_def
    by (rule first_seen_sorted [OF ok]) simp_all
  have b: "\<forall>out \<in> set (observed_ids h ?s fs). sorted_wrt (<) out \<and> distinct out"
    using observed_distinct [OF ok, of h fs] by (auto simp: strict_sorted_iff)
  have c: "\<forall>pre out post x.
         observed_ids h ?s fs = pre @ out # post
         \<and> x \<in> \<Union> (set ` set pre) \<and> x \<notin> set out
         \<longrightarrow> x \<notin> \<Union> (set ` set post)"
    using never_reissued [OF ok] by blast
  have e: "concat (assigned_ids h ?s fs) = [1..<nextId (fst (final_state h ?s fs))]"
    using assigned_concat [OF ok, of h fs] by (simp add: new_PersonTracker_def)
  then have d: "distinct (concat (assigned_ids h ?s fs))"
    by simp
  have f: "\<forall>out \<in> set (observed_ids h ?s fs). set out \<subseteq> set (concat (assigned_ids h ?s fs))"
  proof (intro ballI subsetI)
    fix out x
    assume "out \<in> set (observed_ids h ?s fs)" "x \<in> set out"
    then have "x \<in> pid ` set (tracked ?s) \<or> x \<in> set (concat (assigned_ids h ?s fs))"
      using observed_assigned [OF ok, of h fs] by blast
    then show "x \<in> set (concat (assigned_ids h ?s fs))"
      by (simp add: new_PersonTracker_def)
  qed
  have g: "list_all2 (\<lambda>out new. \<exists>surv. out = surv @ new)
        (observed_ids h ?s fs) (assigned_ids h ?s fs)"
    by (rule observed_by_call [OF ok])
  from a b c d e f g show ?thesis by (intro conjI)
qed

theorem ids_unique_increasing_witness:
  "[1, 2] \<in> set (observed_ids store0 new_PersonTracker [(id, [det_a]), (id, [det_b]), (id, [det_b])])
   \<and> set [1, 2] \<subseteq> set (concat (assigned_ids store0 new_PersonTracker
                                  [(id, [det_a]), (id, [det_b]), (id, [det_b])]))
   \<and> first_appearance (observed_ids store0 new_PersonTracker
        [(id, [det_a]), (id, [det_b]), (id, [det_b])]) = [1, 2]"
proof -
  let ?fs = "[(id, [det_a]), (id, [det_b]), (id, [det_b])]"
  have m: "[1, 2] \<in> set (observed_ids store0 new_PersonTracker ?fs)"
    by (simp add: three_calls)
  have "\<forall>out \<in> set (observed_ids store0 new_PersonTracker ?fs).
          set out \<subseteq> set (concat (assigned_ids store0 new_PersonTracker ?fs))"
    using ids_unique_increasing [of store0 ?fs] by blast
  with m have "set [1, 2] \<subseteq> set (concat (assigned_ids store0 new_PersonTracker ?fs))"
    by blast
  moreover have "first_appearance (observed_ids store0 new_PersonTracker ?fs) = [1, 2]"
    by (simp add: three_calls first_appearance_def)
  ultimately show ?thesis using m by blast
qed

text \<open>
  Claim C2, amended in one point.  The pairs retained by the two loops are exactly the
  pairs of a track and a detection whose combined score is above the double \<open>0.1\<close>,
  each once, with that score; every committed pair is a retained pair, so a pair whose
  score is not above \<open>0.1\<close> is never matched.  The combined score is
  \<open>0.6 * IoU + 0.4 * proximity\<close> between the detection's box and the track's box moved
  by its velocity, its width and height unchanged, every operation rounded.  The
  proximity is \<open>max 0 (1 - d / (max w h 100 * 2))\<close> with \<open>d\<close> the distance of the
  centres.  The IoU is the area of the intersection over
  \<open>areaA + areaB - intersection\<close> when this union is positive and 0 otherwise; it is
  0 for boxes that do not overlap.  The amendment: the claim gives the quotient
  whenever the union is not 0.  Both agree when the computed union is not negative;
  rounding can make it negative, and then the source returns 0.
\<close>

theorem retained_candidates:
  "set (build_costs h ts ds) =
     {\<lparr>trackIdx = ti, detIdx = di, cscore = pair_score h (ts ! ti) (ds ! di)\<rparr> | ti di.
        ti < length ts \<and> di < length ds \<and> pair_score h (ts ! ti) (ds ! di) > rnd (1 / 10)}
   \<and> distinct (build_costs h ts ds)
   \<and> (\<forall>c \<in> set (committed h ts ds).
         trackIdx c < length ts \<and> detIdx c < length ds
         \<and> cscore c = pair_score h (ts ! trackIdx c) (ds ! detIdx c)
         \<and> pair_score h (ts ! trackIdx c) (ds ! detIdx c) > rnd (1 / 10))
   \<and> pair_score h t d = combinedScore (predicted_box h t) (h (d_bbox d))
   \<and> predicted_box h t =
        Box (fadd (b0 (h (bbox t))) (fst (velocity t))) (fadd (b1 (h (bbox t))) (snd (velocity t)))
            (b2 (h (bbox t))) (b3 (h (bbox t)))
   \<and> combinedScore a b =
        fadd (fmul (rnd (6 / 10)) (iou a b)) (fmul (rnd (4 / 10)) (spec_proximity a b))
   \<and> spec_proximity a b =
        max 0 (fsub 1 (fdiv (centerDistance a b) (fmul (max (max (b2 a) (b3 a)) 100) 2)))
   \<and> centerDistance a b =
        fsqrt (fadd (fpow2 (fsub (fadd (b0 a) (fdiv (b2 a) 2)) (fadd (b0 b) (fdiv (b2 b) 2))))
                    (fpow2 (fsub (fadd (b1 a) (fdiv (b3 a) 2)) (fadd (b1 b) (fdiv (b3 b) 2)))))
   \<and> iou a b =
        (if union_area a b > 0 then fdiv (inter_area a b) (union_area a b) else 0)
   \<and> union_area a b = fsub (fadd (fmul (b2 a) (b3 a)) (fmul (b2 b) (b3 b))) (inter_area a b)
   \<and> (disjoint_boxes a b \<longrightarrow> iou a b = 0)
   \<and> (0 \<le> union_area a b \<longrightarrow> iou a b = spec_iou a b)
   \<and> (0 \<le> union_area (predicted_box h t) (h (d_bbox d)) \<longrightarrow>
        pair_score h t d = spec_score h t d)"
proof -
  have "trackIdx c < length ts \<and> detIdx c < length ds
         \<and> cscore c = pair_score h (ts ! trackIdx c) (ds ! detIdx c)
         \<and> pair_score h (ts ! trackIdx c) (ds ! detIdx c) > rnd (1 / 10)"
    if "c \<in> set (committed h ts ds)" for c
  proof -
    have "c \<in> set (build_costs h ts ds)"
      using that committed_subset by blast
    then show ?thesis by (auto simp: set_build_costs)
  qed
  then have c3: "\<forall>c \<in> set (committed h ts ds).
         trackIdx c < length ts \<and> detIdx c < length ds
         \<and> cscore c = pair_score h (ts ! trackIdx c) (ds ! detIdx c)
         \<and> pair_score h (ts ! trackIdx c) (ds ! detIdx c) > rnd (1 / 10)"
    by blast
  have c7: "spec_proximity a b =
        max 0 (fsub 1 (fdiv (centerDistance a b) (fmul (max (max (b2 a) (b3 a)) 100) 2)))"
    by (simp add: spec_proximity_def centerDistance_def Let_def)
  have c8: "centerDistance a b =
        fsqrt (fadd (fpow2 (fsub (fadd (b0 a) (fdiv (b2 a) 2)) (fadd (b0 b) (fdiv (b2 b) 2))))
                    (fpow2 (fsub (fadd (b1 a) (fdiv (b3 a) 2)) (fadd (b1 b) (fdiv (b3 b) 2)))))"
    by (simp add: centerDistance_def Let_def)
  have c11: "disjoint_boxes a b \<longrightarrow> iou a b = 0"
    using iou_disjoint by blast
  have c12: "0 \<le> union_area a b \<longrightarrow> iou a b = spec_iou a b"
    using iou_spec by blast
  have c13: "0 \<le> union_area (predicted_box h t) (h (d_bbox d)) \<longrightarrow>
        pair_score h t d = spec_score h t d"
    using pair_score_spec by blast
  show ?thesis
    using set_build_costs [of h ts ds] build_costs_distinct [of h ts ds] c3
      pair_score_def [of h t d] predicted_box_def [of h t] combinedScore_proximity [of a b]
      c7 c8 iou_inter_area [of a b] union_area_def [of a b] c11 c12 c13
    by (intro conjI)
qed

theorem retained_candidates_witness:
  "disjoint_boxes (Box 0 0 50 50) (Box 100 0 50 50)
   \<and> 0 \<le> union_area (Box 0 0 50 50) (Box 100 0 50 50)
   \<and> iou (Box 0 0 50 50) (Box 100 0 50 50) = 0
   \<and> spec_iou (Box 0 0 50 50) (Box 100 0 50 50) = 0
   \<and> \<lparr>trackIdx = 1, detIdx = 1, cscore = rnd (1 / 5)\<rparr>
        \<in> set (committed store1 two_tracks two_dets)
   \<and> 0 \<le> union_area (predicted_box store1 (two_tracks ! 1)) (store1 (d_bbox (two_dets ! 1)))
   \<and> pair_score store1 (two_tracks ! 1) (two_dets ! 1) = rnd (1 / 5)
   \<and> spec_score store1 (two_tracks ! 1) (two_dets ! 1) = rnd (1 / 5)"
proof -
  let ?c = "\<lparr>trackIdx = 1, detIdx = 1, cscore = rnd (1 / 5)\<rparr>"
  have d: "disjoint_boxes (Box 0 0 50 50) (Box 100 0 50 50)"
    by (simp add: disjoint_boxes_def fadd_def)
  have u: "0 \<le> union_area (Box 0 0 50 50) (Box 100 0 50 50)"
    by (simp add: union_area_def inter_area_def float_ops)
  have p: "predicted_box store1 (two_tracks ! 1) = Box 200 0 50 50"
          "store1 (d_bbox (two_dets ! 1)) = Box 100 0 50 50"
    by (simp_all add: two_tracks_def two_dets_def predicted_box_def fadd_def)
  have u': "0 \<le> union_area (predicted_box store1 (two_tracks ! 1)) (store1 (d_bbox (two_dets ! 1)))"
    unfolding p by (simp add: union_area_def inter_area_def float_ops)
  have c: "?c \<in> set (committed store1 two_tracks two_dets)"
    by (simp add: committed_def tie_sorted)
  note r = retained_candidates
    [of store1 two_tracks two_dets "two_tracks ! 1" "two_dets ! 1" "Box 0 0 50 50" "Box 100 0 50 50"]
  have i: "iou (Box 0 0 50 50) (Box 100 0 50 50) = 0"
    using r d by blast
  have "iou (Box 0 0 50 50) (Box 100 0 50 50) = spec_iou (Box 0 0 50 50) (Box 100 0 50 50)"
    using r u by blast
  then have si: "spec_iou (Box 0 0 50 50) (Box 100 0 50 50) = 0"
    using i by simp
  have "cscore ?c = pair_score store1 (two_tracks ! trackIdx ?c) (two_dets ! detIdx ?c)"
    using r c by blast
  then have ps: "pair_score store1 (two_tracks ! 1) (two_dets ! 1) = rnd (1 / 5)"
    by simp
  have "pair_score store1 (two_tracks ! 1) (two_dets ! 1)
          = spec_score store1 (two_tracks ! 1) (two_dets ! 1)"
    using r u' by blast
  then have ss: "spec_score store1 (two_tracks ! 1) (two_dets ! 1) = rnd (1 / 5)"
    using ps by simp
  from d u i si c u' ps ss show ?thesis
    by (intro conjI)
qed

text \<open>
  The case the amendment to claim C2 is about.  The track and the detection have the
  box \<open>[10^16, 10^16, 1.25, 1.25]\<close>.  The computed intersection is 4 and the computed
  union is \<open>- 0.875\<close>, so \<open>iou\<close> returns 0, the score of the pair is
  \<open>0 * 0.6 + 1 * 0.4 = 0.4\<close>, and the pair is retained and committed.  With the
  quotient \<open>4 / - 0.875\<close> for the IoU, as the claim has it when the union is not 0,
  the combined score would be negative and the pair would not be retained.
\<close>

theorem negative_union_retained:
  "inter_area (far_store 0) (far_store 1) = 4
   \<and> union_area (far_store 0) (far_store 1) = - (7 / 8)
   \<and> iou (far_store 0) (far_store 1) = 0
   \<and> spec_iou (far_store 0) (far_store 1) = rnd (- (32 / 7))
   \<and> spec_iou (far_store 0) (far_store 1) < 0
   \<and> spec_score far_store far_track far_det < 0
   \<and> spec_score far_store far_track far_det \<le> rnd (1 / 10)
   \<and> pair_score far_store far_track far_det = rnd (4 / 10)
   \<and> rnd (1 / 10) < rnd (4 / 10)
   \<and> build_costs far_store [far_track] [far_det]
        = [\<lparr>trackIdx = 0, detIdx = 0, cscore = rnd (4 / 10)\<rparr>]
   \<and> committed far_store [far_track] [far_det]
        = [\<lparr>trackIdx = 0, detIdx = 0, cscore = rnd (4 / 10)\<rparr>]"
proof -
  have i: "iou (far_store 0) (far_store 1) = 0"
    by (simp add: iou_inter_area far_areas)
  have s: "spec_iou (far_store 0) (far_store 1) = rnd (- (32 / 7))"
    by (simp add: spec_iou_def far_areas fdiv_def)
  have s': "spec_iou (far_store 0) (far_store 1) < 0"
    unfolding s by (simp add: cancellation_roundings)
  have t: "rnd (1 / 10) < rnd (4 / 10)"
    by (simp add: literal_doubles)
  have neg: "spec_score far_store far_track far_det < 0"
    by (simp add: far_scores)
  have le: "spec_score far_store far_track far_det \<le> rnd (1 / 10)"
    by (simp add: far_scores literal_doubles)
  have cm: "committed far_store [far_track] [far_det]
        = [\<lparr>trackIdx = 0, detIdx = 0, cscore = rnd (4 / 10)\<rparr>]"
    by (simp add: committed_def far_costs sort_costs_def)
  have a: "inter_area (far_store 0) (far_store 1) = 4"
          "union_area (far_store 0) (far_store 1) = - (7 / 8)"
    by (simp_all add: far_areas)
  from a i s s' neg le far_scores(1) t far_costs cm show ?thesis
    by (intro conjI)
qed

text \<open>
  Claim C3.  The greedy loop of \<open>update\<close> is \<open>greedy\<close>, run on the sorted list of
  the retained pairs; \<open>commits\<close> lists the pairs at which the loop does not skip.  The
  retained pairs are enumerated by track, then by detection, with indices inside the
  two lists.  For every list \<open>cs\<close> of pairs in enumeration order, whatever their
  scores: the walked list \<open>sort_costs cs\<close> has the elements of \<open>cs\<close>, each once, in
  descending order of score, pairs of equal score in the order in which they were
  enumerated (\<open>walked_before\<close>).  A pair is committed exactly when no pair walked
  before it and committed has the same track or the same detection.  Hence no track
  and no detection occurs in two committed pairs.  The loop returns the index sets of
  the committed pairs and a track list of the same length, in which the track of every
  committed pair has been overwritten from that pair's detection (\<open>apply_match\<close>) and
  every other track is as it was.  All of this is a function of the store, the tracks
  and the detections.
\<close>

theorem greedy_matching:
  "sorted_wrt enumerated_before (build_costs h ts ds)
   \<and> (\<forall>c \<in> set (build_costs h ts ds). trackIdx c < length ts \<and> detIdx c < length ds)
   \<and> match_phase h ts ds = greedy h ds (sort_costs (build_costs h ts ds)) ts {} {}
   \<and> committed h ts ds = commits (sort_costs (build_costs h ts ds)) {} {}
   \<and> (sorted_wrt enumerated_before cs \<longrightarrow>
        (let walked = sort_costs cs;
             cm = commits walked {} {};
             r = greedy h ds walked ts {} {}
         in sorted_wrt walked_before walked
          \<and> distinct walked
          \<and> set walked = set cs
          \<and> (\<forall>pre c post. walked = pre @ c # post \<longrightarrow>
               (c \<in> set cm \<longleftrightarrow>
                  (\<forall>c' \<in> set cm. c' \<in> set pre \<longrightarrow>
                     trackIdx c' \<noteq> trackIdx c \<and> detIdx c' \<noteq> detIdx c)))
          \<and> set cm \<subseteq> set cs
          \<and> distinct (map trackIdx cm)
          \<and> distinct (map detIdx cm)
          \<and> snd r = (trackIdx ` set cm, detIdx ` set cm)
          \<and> length (fst r) = length ts
          \<and> (\<forall>c \<in> set cm. trackIdx c < length ts \<longrightarrow>
               fst r ! trackIdx c = apply_match h (ts ! trackIdx c) (ds ! detIdx c))
          \<and> (\<forall>j < length ts. j \<notin> trackIdx ` set cm \<longrightarrow> fst r ! j = ts ! j)))"
proof -
  have range: "\<forall>c \<in> set (build_costs h ts ds). trackIdx c < length ts \<and> detIdx c < length ds"
    by (auto simp: set_build_costs)
  have general: "sorted_wrt walked_before (sort_costs cs)
          \<and> distinct (sort_costs cs)
          \<and> set (sort_costs cs) = set cs
          \<and> (\<forall>pre c post. sort_costs cs = pre @ c # post \<longrightarrow>
               (c \<in> set (commits (sort_costs cs) {} {}) \<longleftrightarrow>
                  (\<forall>c' \<in> set (commits (sort_costs cs) {} {}). c' \<in> set pre \<longrightarrow>
                     trackIdx c' \<noteq> trackIdx c \<and> detIdx c' \<noteq> detIdx c)))
          \<and> set (commits (sort_costs cs) {} {}) \<subseteq> set cs
          \<and> distinct (map trackIdx (commits (sort_costs cs) {} {}))
          \<and> distinct (map detIdx (commits (sort_costs cs) {} {}))
          \<and> snd (greedy h ds (sort_costs cs) ts {} {}) =
               (trackIdx ` set (commits (sort_costs cs) {} {}),
                detIdx ` set (commits (sort_costs cs) {} {}))
          \<and> length (fst (greedy h ds (sort_costs cs) ts {} {})) = length ts
          \<and> (\<forall>c \<in> set (commits (sort_costs cs) {} {}). trackIdx c < length ts \<longrightarrow>
               fst (greedy h ds (sort_costs cs) ts {} {}) ! trackIdx c
                 = apply_match h (ts ! trackIdx c) (ds ! detIdx c))
          \<and> (\<forall>j < length ts. j \<notin> trackIdx ` set (commits (sort_costs cs) {} {}) \<longrightarrow>
               fst (greedy h ds (sort_costs cs) ts {} {}) ! j = ts ! j)"
    if e: "sorted_wrt enumerated_before cs"
  proof -
    let ?w = "sort_costs cs"
    have w: "sorted_wrt walked_before ?w" using e by (rule sort_costs_walked_any)
    then have d: "distinct ?w" by (rule walked_distinct)
    have rule: "\<forall>pre c post. ?w = pre @ c # post \<longrightarrow>
               (c \<in> set (commits ?w {} {}) \<longleftrightarrow>
                  (\<forall>c' \<in> set (commits ?w {} {}). c' \<in> set pre \<longrightarrow>
                     trackIdx c' \<noteq> trackIdx c \<and> detIdx c' \<noteq> detIdx c))"
      using commits_rule [OF d] by blast
    have sub: "set (commits ?w {} {}) \<subseteq> set cs"
      using commits_subset [of ?w "{}" "{}"] by simp
    have sets: "snd (greedy h ds ?w ts {} {}) =
               (trackIdx ` set (commits ?w {} {}), detIdx ` set (commits ?w {} {}))"
      by (simp add: greedy_sets)
    have dt: "distinct (map trackIdx (commits ?w {} {}))"
      by (rule commits_distinct_tracks)
    have dd: "distinct (map detIdx (commits ?w {} {}))"
      by (rule commits_distinct_dets)
    have len: "length (fst (greedy h ds ?w ts {} {})) = length ts"
      using greedy_length [of h ds ?w ts "{}" "{}"] by simp
    have hit: "\<forall>c \<in> set (commits ?w {} {}). trackIdx c < length ts \<longrightarrow>
               fst (greedy h ds ?w ts {} {}) ! trackIdx c
                 = apply_match h (ts ! trackIdx c) (ds ! detIdx c)"
      using greedy_committed_track [of _ ?w ts h ds] by blast
    have miss: "\<forall>j < length ts. j \<notin> trackIdx ` set (commits ?w {} {}) \<longrightarrow>
               fst (greedy h ds ?w ts {} {}) ! j = ts ! j"
      using greedy_other_track [of _ ts ?w h ds] by blast
    have st: "set ?w = set cs" by (rule set_sort_costs)
    from w d st rule sub dt dd sets len hit miss show ?thesis
      by (intro conjI)
  qed
  have enum: "sorted_wrt enumerated_before (build_costs h ts ds)"
    by (rule build_costs_enumerated)
  have m: "match_phase h ts ds = greedy h ds (sort_costs (build_costs h ts ds)) ts {} {}"
    by (simp only: match_phase_def)
  have c: "committed h ts ds = commits (sort_costs (build_costs h ts ds)) {} {}"
    by (simp only: committed_def)
  from enum range m c general show ?thesis
    unfolding Let_def by blast
qed

theorem greedy_matching_witness:
  "sorted_wrt enumerated_before (build_costs store1 two_tracks two_dets)
   \<and> sort_costs (build_costs store1 two_tracks two_dets) =
     [] @ \<lparr>trackIdx = 0, detIdx = 0, cscore = rnd (1 / 5)\<rparr> #
       [\<lparr>trackIdx = 0, detIdx = 1, cscore = rnd (1 / 5)\<rparr>,
        \<lparr>trackIdx = 1, detIdx = 0, cscore = rnd (1 / 5)\<rparr>, \<lparr>trackIdx = 1, detIdx = 1, cscore = rnd (1 / 5)\<rparr>]
   \<and> \<lparr>trackIdx = 0, detIdx = 0, cscore = rnd (1 / 5)\<rparr> \<in> set (committed store1 two_tracks two_dets)
   \<and> map (\<lambda>c. (trackIdx c, detIdx c)) (committed store1 two_tracks two_dets) = [(0, 0), (1, 1)]
   \<and> fst (match_phase store1 two_tracks two_dets) =
       [\<lparr>pid = 1, bbox = 2, score = 7 / 10, age = 0, velocity = (100, 0)\<rparr>,
        \<lparr>pid = 2, bbox = 3, score = 6 / 10, age = 0, velocity = (- 100, 0)\<rparr>]
   \<and> snd (match_phase store1 two_tracks two_dets) = ({0, 1}, {0, 1})"
proof -
  let ?cs = "build_costs store1 two_tracks two_dets"
  note g = greedy_matching [of store1 two_tracks two_dets ?cs]
  have e: "sorted_wrt enumerated_before ?cs"
    using g by blast
  have s: "sort_costs ?cs =
     [] @ \<lparr>trackIdx = 0, detIdx = 0, cscore = rnd (1 / 5)\<rparr> #
       [\<lparr>trackIdx = 0, detIdx = 1, cscore = rnd (1 / 5)\<rparr>,
        \<lparr>trackIdx = 1, detIdx = 0, cscore = rnd (1 / 5)\<rparr>, \<lparr>trackIdx = 1, detIdx = 1, cscore = rnd (1 / 5)\<rparr>]"
    by (simp add: tie_sorted)
  have cm: "committed store1 two_tracks two_dets =
      [\<lparr>trackIdx = 0, detIdx = 0, cscore = rnd (1 / 5)\<rparr>, \<lparr>trackIdx = 1, detIdx = 1, cscore = rnd (1 / 5)\<rparr>]"
    by (simp add: committed_def tie_sorted)
  have m: "match_phase store1 two_tracks two_dets = greedy store1 two_dets (sort_costs ?cs) two_tracks {} {}"
          "committed store1 two_tracks two_dets = commits (sort_costs ?cs) {} {}"
    using g by blast+
  have q: "c \<in> set (committed store1 two_tracks two_dets) \<longleftrightarrow>
           (\<forall>c' \<in> set (committed store1 two_tracks two_dets). c' \<in> set pre \<longrightarrow>
              trackIdx c' \<noteq> trackIdx c \<and> detIdx c' \<noteq> detIdx c)"
    if "sort_costs ?cs = pre @ c # post" for pre c post
    using g e that unfolding Let_def m by blast
  have first: "\<lparr>trackIdx = 0, detIdx = 0, cscore = rnd (1 / 5)\<rparr> \<in> set (committed store1 two_tracks two_dets)"
    using q [OF s] by simp
  have len: "length (fst (match_phase store1 two_tracks two_dets)) = length two_tracks"
    using g e unfolding Let_def m by blast
  have hit: "fst (match_phase store1 two_tracks two_dets) ! trackIdx c
               = apply_match store1 (two_tracks ! trackIdx c) (two_dets ! detIdx c)"
    if "c \<in> set (committed store1 two_tracks two_dets)" "trackIdx c < length two_tracks" for c
    using g e that unfolding Let_def m by blast
  have sets: "snd (match_phase store1 two_tracks two_dets) =
       (trackIdx ` set (committed store1 two_tracks two_dets),
        detIdx ` set (committed store1 two_tracks two_dets))"
    using g e unfolding Let_def m by blast
  have t0: "fst (match_phase store1 two_tracks two_dets) ! 0 =
        \<lparr>pid = 1, bbox = 2, score = 7 / 10, age = 0, velocity = (100, 0)\<rparr>"
  proof -
    have "fst (match_phase store1 two_tracks two_dets) ! trackIdx \<lparr>trackIdx = 0, detIdx = 0, cscore = rnd (1 / 5)\<rparr>
            = apply_match store1 (two_tracks ! trackIdx \<lparr>trackIdx = 0, detIdx = 0, cscore = rnd (1 / 5)\<rparr>) (two_dets ! detIdx \<lparr>trackIdx = 0, detIdx = 0, cscore = rnd (1 / 5)\<rparr>)"
    proof (rule hit)
      show "\<lparr>trackIdx = 0, detIdx = 0, cscore = rnd (1 / 5)\<rparr> \<in> set (committed store1 two_tracks two_dets)"
        by (simp add: cm)
      show "trackIdx \<lparr>trackIdx = 0, detIdx = 0, cscore = rnd (1 / 5)\<rparr> < length two_tracks"
        by (simp add: two_tracks_def)
    qed
    then show ?thesis
      by (simp add: two_tracks_def two_dets_def apply_match_def fsub_def)
  qed
  have t1: "fst (match_phase store1 two_tracks two_dets) ! 1 =
        \<lparr>pid = 2, bbox = 3, score = 6 / 10, age = 0, velocity = (- 100, 0)\<rparr>"
  proof -
    have "fst (match_phase store1 two_tracks two_dets) ! trackIdx \<lparr>trackIdx = 1, detIdx = 1, cscore = rnd (1 / 5)\<rparr>
            = apply_match store1 (two_tracks ! trackIdx \<lparr>trackIdx = 1, detIdx = 1, cscore = rnd (1 / 5)\<rparr>) (two_dets ! detIdx \<lparr>trackIdx = 1, detIdx = 1, cscore = rnd (1 / 5)\<rparr>)"
    proof (rule hit)
      show "\<lparr>trackIdx = 1, detIdx = 1, cscore = rnd (1 / 5)\<rparr> \<in> set (committed store1 two_tracks two_dets)"
        by (simp add: cm)
      show "trackIdx \<lparr>trackIdx = 1, detIdx = 1, cscore = rnd (1 / 5)\<rparr> < length two_tracks"
        by (simp add: two_tracks_def)
    qed
    then show ?thesis
      by (simp add: two_tracks_def two_dets_def apply_match_def fsub_def)
  qed
  have tracks: "fst (match_phase store1 two_tracks two_dets) =
       [\<lparr>pid = 1, bbox = 2, score = 7 / 10, age = 0, velocity = (100, 0)\<rparr>,
        \<lparr>pid = 2, bbox = 3, score = 6 / 10, age = 0, velocity = (- 100, 0)\<rparr>]"
    using len t0 t1 by (simp add: two_tracks_def list_eq_iff_nth_eq less_Suc_eq)
  have "snd (match_phase store1 two_tracks two_dets) = ({0, 1}, {0, 1})"
    using sets by (simp add: cm)
  then show ?thesis using e s first tracks by (simp add: cm)
qed


text \<open>
  Claim C4 says that a track committed to a match has, after the call, the velocity
  \<open>detection position - old position\<close>, the detection's box and score, and age 0.
  The track takes the detection's array, not a copy of it, and the ageing loop of the
  same call writes into the array of every unmatched track.  In the run below the
  caller passes the detection \<open>det_b\<close> in consecutive calls.  Before the fourth call
  the two tracks refer to the array of \<open>det_b\<close>.  The call commits the second track
  to \<open>det_b\<close>, whose box is \<open>(1400, 0, 50, 50)\<close> when it is passed, and gives the
  track the velocity \<open>(0, 0)\<close>, the score of \<open>det_b\<close> and age 0.  The first track
  stays unmatched, and its ageing adds its velocity to the shared array.  When the
  call returns, the box of the matched track is \<open>(2100, 0, 50, 50)\<close>.
\<close>

theorem matched_track_box_moved:
  "final_state store0 new_PersonTracker [(id, [det_a]), (id, [det_b]), (id, [det_b])]
     = (tracker3, store3)
   \<and> tracked tracker3 =
        [\<lparr>pid = 1, bbox = 1, score = 8 / 10, age = 1, velocity = (700, 0)\<rparr>,
         \<lparr>pid = 2, bbox = 1, score = 8 / 10, age = 0, velocity = (0, 0)\<rparr>]
   \<and> d_bbox det_b = 1
   \<and> store3 1 = Box 1400 0 50 50
   \<and> committed store3 (tracked tracker3) (personDetections [det_b])
        = [\<lparr>trackIdx = 1, detIdx = 0, cscore = 1\<rparr>]
   \<and> tracked (fst (update store3 tracker3 [det_b])) =
        [\<lparr>pid = 1, bbox = 1, score = 8 / 10, age = 2, velocity = (700, 0)\<rparr>,
         \<lparr>pid = 2, bbox = 1, score = 8 / 10, age = 0, velocity = (0, 0)\<rparr>]
   \<and> snd (update store3 tracker3 [det_b]) 1 = Box 2100 0 50 50"
proof -
  have "final_state store0 new_PersonTracker [(id, [det_a]), (id, [det_b]), (id, [det_b])]
     = (tracker3, store3)"
    by (simp add: call1 call2 call3)
  moreover have "committed store3 (tracked tracker3) (personDetections [det_b])
        = [\<lparr>trackIdx = 1, detIdx = 0, cscore = 1\<rparr>]"
    by (simp add: committed_def build_costs_def sort_costs_def predicted_box_def fadd_def
        scenario_scores scenario_retained tracker3_def upt_rec [of 0] upt_rec [of 1])
  ultimately show ?thesis
    by (simp add: call4_det) (simp add: tracker3_def)
qed

text \<open>
  Claim C5 says that a track left unmatched has its age increased by 1 and its box
  moved by its own velocity.  In the same run, a fourth call without detections leaves
  both tracks unmatched.  The second track has velocity \<open>(0, 0)\<close> and the box
  \<open>(1400, 0, 50, 50)\<close> before the call; it shares the array with the first track,
  whose velocity is \<open>(700, 0)\<close>.  After the call its age is 1, its velocity is
  unchanged, and its box is \<open>(2100, 0, 50, 50)\<close>: it moved by the velocity of the
  other track.
\<close>

theorem shared_box_advanced_by_other_track:
  "final_state store0 new_PersonTracker [(id, [det_a]), (id, [det_b]), (id, [det_b])]
     = (tracker3, store3)
   \<and> tracked tracker3 =
        [\<lparr>pid = 1, bbox = 1, score = 8 / 10, age = 1, velocity = (700, 0)\<rparr>,
         \<lparr>pid = 2, bbox = 1, score = 8 / 10, age = 0, velocity = (0, 0)\<rparr>]
   \<and> store3 1 = Box 1400 0 50 50
   \<and> committed store3 (tracked tracker3) (personDetections []) = []
   \<and> tracked (fst (update store3 tracker3 [])) =
        [\<lparr>pid = 1, bbox = 1, score = 8 / 10, age = 2, velocity = (700, 0)\<rparr>,
         \<lparr>pid = 2, bbox = 1, score = 8 / 10, age = 1, velocity = (0, 0)\<rparr>]
   \<and> snd (update store3 tracker3 []) 1 = Box 2100 0 50 50"
proof -
  have "final_state store0 new_PersonTracker [(id, [det_a]), (id, [det_b]), (id, [det_b])]
     = (tracker3, store3)"
    by (simp add: call1 call2 call3)
  moreover have "committed store3 (tracked tracker3) (personDetections []) = []"
    by (simp add: committed_def build_costs_def sort_costs_def tracker3_def)
  ultimately show ?thesis
    by (simp add: call4_empty) (simp add: tracker3_def)
qed

text \<open>
  Claim C6.  In the second branch of \<open>update\<close>, on a tracker whose ids are in order,
  the track at position \<open>j\<close> keeps its id through the matching and ageing loops, and
  its id is absent from the returned list exactly when its age after these loops is 15
  or more.  In any state, a track of the list left by these loops is in the returned
  list exactly when its age is below 15.  Every track of a list returned by
  \<open>update\<close>, in either branch and from any state, has age at most 14.
\<close>

theorem eviction:
  "(tracked s \<noteq> [] \<and> ids_ok s \<longrightarrow>
      (\<forall>j < length (tracked s).
         pid (aged_tracks h (tracked s) (personDetections detections) ! j) = pid (tracked s ! j)
         \<and> (pid (tracked s ! j) \<notin> pid ` set (tracked (fst (update h s detections)))
              \<longleftrightarrow> 15 \<le> age (aged_tracks h (tracked s) (personDetections detections) ! j))))
   \<and> (tracked s \<noteq> [] \<longrightarrow>
        (\<forall>t \<in> set (aged_tracks h (tracked s) (personDetections detections)).
           t \<in> set (tracked (fst (update h s detections))) \<longleftrightarrow> age t < 15))
   \<and> (\<forall>t \<in> set (tracked (fst (update h s detections))). age t \<le> 14)
   \<and> maxAge = 15"
proof -
  let ?ds = "personDetections detections"
  let ?aged = "aged_tracks h (tracked s) ?ds"
  let ?new = "unmatched_detections h (tracked s) ?ds"
  let ?out = "tracked (fst (update h s detections))"
  let ?spawned = "map2 new_track [nextId s..<nextId s + length ?new] ?new"
  have out: "?out = filter (\<lambda>t. age t < 15) ?aged @ ?spawned" if "tracked s \<noteq> []"
    using that by (simp add: update_tracks Let_def maxAge_def)
  have ages: "age t \<le> 14" if "t \<in> set ?out" for t
  proof (cases "tracked s = []")
    case True
    then show ?thesis using that age_map2_new_track [of t] by (auto simp: update_bootstrap)
  next
    case False
    show ?thesis using that age_map2_new_track [of t] by (auto simp: out [OF False])
  qed
  have part2: "t \<in> set ?out \<longleftrightarrow> age t < 15"
    if "tracked s \<noteq> []" "t \<in> set ?aged" for t
  proof
    assume "t \<in> set ?out"
    then show "age t < 15" using ages [of t] by simp
  next
    assume "age t < 15"
    then show "t \<in> set ?out" using that by (simp add: out)
  qed
  have part1: "pid (?aged ! j) = pid (tracked s ! j)
      \<and> (pid (tracked s ! j) \<notin> pid ` set ?out \<longleftrightarrow> 15 \<le> age (?aged ! j))"
    if ne: "tracked s \<noteq> []" and ok: "ids_ok s" and j: "j < length (tracked s)" for j
  proof -
    have d: "distinct (map pid (tracked s))"
      using ok by (simp add: ids_ok_def strict_sorted_iff)
    have pj: "pid (?aged ! j) = pid (tracked s ! j)"
      using aged_tracks_pid [of h "tracked s" ?ds] j
      by (metis aged_tracks_length nth_map)
    have below: "pid (tracked s ! j) < nextId s"
      using ok j by (auto simp: ids_ok_def)
    have notnew: "pid (tracked s ! j) \<notin> pid ` set ?spawned"
      using below pid_map2_new_track_mem [of _ "nextId s" "length ?new" ?new] by force
    have "pid (tracked s ! j) \<in> pid ` set (filter (\<lambda>t. age t < 15) ?aged)
            \<longleftrightarrow> age (?aged ! j) < 15"
    proof
      assume "pid (tracked s ! j) \<in> pid ` set (filter (\<lambda>t. age t < 15) ?aged)"
      then obtain t where t: "t \<in> set ?aged" "age t < 15" "pid t = pid (tracked s ! j)"
        by auto
      then obtain k where k: "k < length ?aged" "?aged ! k = t"
        by (auto simp: in_set_conv_nth)
      then have "pid (tracked s ! k) = pid (tracked s ! j)"
        using aged_tracks_pid [of h "tracked s" ?ds] t(3)
        by (metis aged_tracks_length nth_map)
      then have "k = j"
        using d j k(1) nth_eq_iff_index_eq [of "map pid (tracked s)" k j]
        by (simp add: aged_tracks_length)
      then show "age (?aged ! j) < 15" using k t by simp
    next
      assume "age (?aged ! j) < 15"
      then have "?aged ! j \<in> set (filter (\<lambda>t. age t < 15) ?aged)"
        using j by (simp add: aged_tracks_length)
      then show "pid (tracked s ! j) \<in> pid ` set (filter (\<lambda>t. age t < 15) ?aged)"
        using pj by (metis imageI)
    qed
    then show ?thesis
      using pj notnew by (auto simp: out [OF ne] image_Un)
  qed
  show ?thesis
    using part1 part2 ages by (simp add: maxAge_def)
qed

theorem eviction_witness:
  "tracked old_tracker \<noteq> [] \<and> ids_ok old_tracker \<and> 0 < length (tracked old_tracker)
   \<and> 15 \<le> age (aged_tracks store0 (tracked old_tracker) (personDetections []) ! 0)
   \<and> pid (tracked old_tracker ! 0) \<notin> pid ` set (tracked (fst (update store0 old_tracker [])))"
proof -
  have ne: "tracked old_tracker \<noteq> []"
    by (simp add: old_tracker_def)
  have ok: "ids_ok old_tracker"
    by (simp add: old_tracker_def ids_ok_def)
  have len: "0 < length (tracked old_tracker)"
    by (simp add: old_tracker_def)
  have a: "15 \<le> age (aged_tracks store0 (tracked old_tracker) (personDetections []) ! 0)"
    by (simp add: aged_tracks_def age_phase_def match_phase_def build_costs_def
        sort_costs_def old_tracker_def Let_def)
  have "pid (tracked old_tracker ! 0) \<notin> pid ` set (tracked (fst (update store0 old_tracker [])))
        \<longleftrightarrow> 15 \<le> age (aged_tracks store0 (tracked old_tracker) (personDetections []) ! 0)"
    using eviction [of old_tracker store0 "[]"] ne ok len by blast
  with ne ok len a show ?thesis by blast
qed

text \<open>
  Claim C7.  When the track list is empty, \<open>update\<close> leaves the store alone and
  returns one track per person detection, in detection order: the \<open>i\<close>-th track
  refers to the \<open>i\<close>-th detection's box, has its score, age 0, velocity \<open>(0, 0)\<close>
  and the id \<open>nextId + i\<close>.  On a new or a reset tracker the ids are \<open>1, ..., N\<close>.
\<close>

theorem bootstrap_tracks:
  assumes "tracked s = []"
  shows "snd (update h s detections) = h
       \<and> length (tracked (fst (update h s detections))) = length (personDetections detections)
       \<and> nextId (fst (update h s detections)) = nextId s + length (personDetections detections)
       \<and> (\<forall>i < length (personDetections detections).
            tracked (fst (update h s detections)) ! i =
              \<lparr>pid = nextId s + i,
               bbox = d_bbox (personDetections detections ! i),
               score = d_score (personDetections detections ! i),
               age = 0, velocity = (0, 0)\<rparr>)
       \<and> (nextId s = 1 \<longrightarrow>
            map pid (tracked (fst (update h s detections)))
              = [1..<Suc (length (personDetections detections))])
       \<and> map pid (tracked (fst (update h new_PersonTracker detections)))
              = [1..<Suc (length (personDetections detections))]
       \<and> map pid (tracked (fst (update h (reset s') detections)))
              = [1..<Suc (length (personDetections detections))]"
proof -
  let ?ds = "personDetections detections"
  have u: "update h s detections =
     (\<lparr>tracked = map2 new_track [nextId s..<nextId s + length ?ds] ?ds,
       nextId = nextId s + length ?ds\<rparr>, h)"
    using assms by (rule update_bootstrap)
  have fresh: "map pid (tracked (fst (update h s0 detections))) = [1..<Suc (length ?ds)]"
    if "tracked s0 = []" "nextId s0 = 1" for s0
  proof -
    have "map pid (map2 new_track [1..<1 + length ?ds] ?ds) = [1..<1 + length ?ds]"
      by (rule pid_map2_new_track)
    then show ?thesis
      using that by (simp add: update_bootstrap del: upt_Suc)
  qed
  have "map pid (tracked (fst (update h new_PersonTracker detections))) = [1..<Suc (length ?ds)]"
    by (rule fresh) (simp_all add: new_PersonTracker_def)
  moreover have "map pid (tracked (fst (update h (reset s') detections))) = [1..<Suc (length ?ds)]"
    by (rule fresh) (simp_all add: reset_def)
  ultimately show ?thesis
    using fresh [of s] assms by (simp add: u new_track_def del: upt_Suc)
qed

theorem bootstrap_tracks_witness:
  "tracked new_PersonTracker = []
   \<and> length (tracked (fst (update store0 new_PersonTracker [det_a, det_b]))) = 2
   \<and> tracked (fst (update store0 new_PersonTracker [det_a, det_b])) ! 1 =
        \<lparr>pid = 2, bbox = 1, score = 8 / 10, age = 0, velocity = (0, 0)\<rparr>"
proof -
  have e: "tracked new_PersonTracker = []"
    by (simp add: new_PersonTracker_def)
  have n: "nextId new_PersonTracker = 1"
    by (simp add: new_PersonTracker_def)
  show ?thesis
    using e bootstrap_tracks [OF e, of store0 "[det_a, det_b]"] by (simp add: n)
qed

text \<open>
  Claim C8.  For a canvas of non-zero width and height, \<open>findPersonAtPoint\<close> scales
  the point by \<open>videoWidth / canvasWidth\<close> and \<open>videoHeight / canvasHeight\<close>, the
  quotients and the products rounded, and returns the first track of the list whose
  box contains the scaled point, all four edges included, the right and the bottom
  edge being the rounded sums \<open>bx + bw\<close> and \<open>by + bh\<close>; it returns nothing exactly
  when no box contains the point, as for the empty list.  With the box \<open>(100, 100, 40, 40)\<close>, a 1280 by 720 source and a
  640 by 360 canvas, the point \<open>(60, 60)\<close> finds the track and \<open>(10, 10)\<close> does not.
  With a canvas width or height of zero the scaled point is not finite and the
  function returns nothing.
\<close>

theorem findPersonAtPoint_first_containing:
  "(canvasWidth \<noteq> 0 \<and> canvasHeight \<noteq> 0 \<longrightarrow>
      (let vx = fmul x (fdiv videoWidth canvasWidth);
           vy = fmul y (fdiv videoHeight canvasHeight);
           r = findPersonAtPoint h persons x y canvasWidth canvasHeight videoWidth videoHeight
       in r = find (\<lambda>p. inside (h (bbox p)) vx vy) persons
          \<and> (r = None \<longleftrightarrow> (\<forall>p \<in> set persons. \<not> inside (h (bbox p)) vx vy))
          \<and> (\<forall>p. r = Some p \<longleftrightarrow>
                (\<exists>i < length persons. persons ! i = p \<and> inside (h (bbox p)) vx vy
                   \<and> (\<forall>j < i. \<not> inside (h (bbox (persons ! j))) vx vy)))))
   \<and> findPersonAtPoint h [] x y canvasWidth canvasHeight videoWidth videoHeight = None
   \<and> (canvasWidth = 0 \<or> canvasHeight = 0 \<longrightarrow>
        findPersonAtPoint h persons x y canvasWidth canvasHeight videoWidth videoHeight = None)
   \<and> (h (bbox t) = Box 100 100 40 40 \<longrightarrow>
        findPersonAtPoint h [t] 60 60 640 360 1280 720 = Some t
        \<and> findPersonAtPoint h [t] 10 10 640 360 1280 720 = None)"
proof -
  have a: "findPersonAtPoint h persons x y canvasWidth canvasHeight videoWidth videoHeight
           = find (\<lambda>p. inside (h (bbox p)) (fmul x (fdiv videoWidth canvasWidth))
                                     (fmul y (fdiv videoHeight canvasHeight))) persons"
    if "canvasWidth \<noteq> 0" "canvasHeight \<noteq> 0"
    using that by (simp add: findPersonAtPoint_def scan_find Let_def)
  have b: "findPersonAtPoint h [] x y canvasWidth canvasHeight videoWidth videoHeight = None"
    by (simp add: findPersonAtPoint_def)
  have c: "findPersonAtPoint h [t] 60 60 640 360 1280 720 = Some t"
          "findPersonAtPoint h [t] 10 10 640 360 1280 720 = None"
    if "h (bbox t) = Box 100 100 40 40"
    using that by (simp_all add: findPersonAtPoint_def float_ops)
  have z: "findPersonAtPoint h persons x y canvasWidth canvasHeight videoWidth videoHeight = None"
    if "canvasWidth = 0 \<or> canvasHeight = 0"
    using that by (simp add: findPersonAtPoint_def)
  show ?thesis
    using a b c z
    by (auto simp: Let_def find_None_iff find_Some_iff)
qed

theorem findPersonAtPoint_first_containing_witness:
  "(640::real) \<noteq> 0 \<and> (360::real) \<noteq> 0 \<and> store0 1 = Box 700 0 50 50
   \<and> findPersonAtPoint store0
        [\<lparr>pid = 1, bbox = 0, score = 1, age = 0, velocity = (0, 0)\<rparr>,
         \<lparr>pid = 2, bbox = 1, score = 1, age = 0, velocity = (0, 0)\<rparr>]
        360 10 640 360 1280 720
      = Some \<lparr>pid = 1, bbox = 0, score = 1, age = 0, velocity = (0, 0)\<rparr>"
  using findPersonAtPoint_first_containing
    [of 640 360 360 1280 10 720 store0
        "[\<lparr>pid = 1, bbox = 0, score = 1, age = 0, velocity = (0, 0)\<rparr>,
          \<lparr>pid = 2, bbox = 1, score = 1, age = 0, velocity = (0, 0)\<rparr>]"]
  by (simp add: inside_def Let_def float_ops)

text \<open>
  Claim C9.  \<open>reset\<close> leaves an empty track list and the id counter at 1, whatever
  the state was, in particular after any sequence of updates; an update with a single
  person detection then returns one track with id 1.
\<close>

theorem reset_restarts_ids:
  "tracked (reset s) = [] \<and> nextId (reset s) = 1 \<and> reset s = new_PersonTracker
   \<and> getTracked (reset s) = []
   \<and> (d_class d = ''person'' \<longrightarrow>
        tracked (fst (update h (reset s) [d])) =
          [\<lparr>pid = 1, bbox = d_bbox d, score = d_score d, age = 0, velocity = (0, 0)\<rparr>])
   \<and> (d_class d = ''person'' \<longrightarrow>
        tracked (fst (update h (reset (fst (final_state h0 new_PersonTracker fs))) [d])) =
          [\<lparr>pid = 1, bbox = d_bbox d, score = d_score d, age = 0, velocity = (0, 0)\<rparr>])"
proof -
  have "tracked (fst (update h (reset s0) [d])) =
          [\<lparr>pid = 1, bbox = d_bbox d, score = d_score d, age = 0, velocity = (0, 0)\<rparr>]"
    if "d_class d = ''person''" for s0
    using that
    by (simp add: update_bootstrap reset_def personDetections_def new_track_def)
  then show ?thesis
    by (simp add: reset_def new_PersonTracker_def getTracked_def)
qed

theorem reset_restarts_ids_witness:
  "d_class det_a = ''person''
   \<and> tracked (fst (update store0
         (reset \<lparr>tracked = [\<lparr>pid = 7, bbox = 1, score = 1, age = 3, velocity = (2, 0)\<rparr>],
                 nextId = 8\<rparr>) [det_a])) =
       [\<lparr>pid = 1, bbox = 0, score = 9 / 10, age = 0, velocity = (0, 0)\<rparr>]"
proof -
  have p: "d_class det_a = ''person''"
    by (simp add: det_a_def)
  have "d_class det_a = ''person'' \<longrightarrow>
        tracked (fst (update store0
          (reset \<lparr>tracked = [\<lparr>pid = 7, bbox = 1, score = 1, age = 3, velocity = (2, 0)\<rparr>],
                  nextId = 8\<rparr>) [det_a])) =
          [\<lparr>pid = 1, bbox = d_bbox det_a, score = d_score det_a, age = 0, velocity = (0, 0)\<rparr>]"
    using reset_restarts_ids
      [of "\<lparr>tracked = [\<lparr>pid = 7, bbox = 1, score = 1, age = 3, velocity = (2, 0)\<rparr>], nextId = 8\<rparr>"
          det_a store0 store0 "[]"]
    by blast
  with p show ?thesis by simp
qed

text \<open>
  Claim C10.  In the second branch the returned list is the list after the matching
  and ageing loops, which has the tracks of the old list at their old positions, with
  the tracks of age 15 or more deleted, followed by one new track for each detection
  that was not matched, in the order of the detections.  In the first branch it is one
  track per detection in the order of the detections.  \<open>getTracked\<close> returns the
  same list.
\<close>

theorem update_order:
  "(tracked s \<noteq> [] \<longrightarrow>
      (let ds = personDetections detections;
           aged = aged_tracks h (tracked s) ds;
           new = unmatched_detections h (tracked s) ds
       in tracked (fst (update h s detections)) =
            filter (\<lambda>t. age t < maxAge) aged
            @ map2 new_track [nextId s..<nextId s + length new] new
        \<and> length aged = length (tracked s)
        \<and> map pid aged = map pid (tracked s)
        \<and> subseq (map pid (filter (\<lambda>t. age t < maxAge) aged)) (map pid (tracked s))
        \<and> map bbox (map2 new_track [nextId s..<nextId s + length new] new) = map d_bbox new
        \<and> new = map ((!) ds)
            (filter (\<lambda>di. di \<notin> snd (snd (match_phase h (tracked s) ds))) [0..<length ds])))
   \<and> (tracked s = [] \<longrightarrow>
        (let ds = personDetections detections
         in tracked (fst (update h s detections)) =
              map2 new_track [nextId s..<nextId s + length ds] ds
          \<and> map bbox (tracked (fst (update h s detections))) = map d_bbox ds))
   \<and> getTracked (fst (update h s detections)) = tracked (fst (update h s detections))"
proof -
  let ?ds = "personDetections detections"
  let ?aged = "aged_tracks h (tracked s) ?ds"
  let ?new = "unmatched_detections h (tracked s) ?ds"
  have bb: "map bbox (map2 new_track [n..<n + length xs] xs) = map d_bbox xs" for n xs
    by (rule nth_equalityI) simp_all
  have "subseq (map pid (filter (\<lambda>t. age t < maxAge) ?aged)) (map pid ?aged)"
    by (intro subseq_map subseq_filter_left)
  then have sub: "subseq (map pid (filter (\<lambda>t. age t < maxAge) ?aged)) (map pid (tracked s))"
    by (simp add: aged_tracks_pid)
  have new: "?new = map ((!) ?ds)
      (filter (\<lambda>di. di \<notin> snd (snd (match_phase h (tracked s) ?ds))) [0..<length ?ds])"
    by (simp add: unmatched_detections_def match_phase_sets)
  have a: ?thesis if "tracked s \<noteq> []"
    unfolding Let_def
    using that sub bb [of "nextId s" ?new] new
    by (intro conjI impI)
       (simp_all only: update_tracks [OF that] Let_def aged_tracks_length aged_tracks_pid
          getTracked_def fst_conv PersonTracker.simps)
  have bb': "map (bbox \<circ> (\<lambda>(x, y). new_track x y)) (zip [n..<n + length xs] xs)
             = map d_bbox xs" for n xs
    using bb [of n xs] by simp
  have b: ?thesis if "tracked s = []"
    using that by (simp add: update_bootstrap Let_def bb' getTracked_def)
  from a b show ?thesis by blast
qed

theorem update_order_witness:
  "tracked tracker2 \<noteq> []
   \<and> length (aged_tracks store0 (tracked tracker2) (personDetections [det_b])) = 1
   \<and> map pid (aged_tracks store0 (tracked tracker2) (personDetections [det_b])) = [1]
   \<and> tracked (fst (update store0 tracker2 [det_b])) =
        [\<lparr>pid = 1, bbox = 1, score = 8 / 10, age = 1, velocity = (700, 0)\<rparr>,
         \<lparr>pid = 2, bbox = 1, score = 8 / 10, age = 0, velocity = (0, 0)\<rparr>]"
proof -
  have ne: "tracked tracker2 \<noteq> []"
    by (simp add: tracker2_def)
  have "length (aged_tracks store0 (tracked tracker2) (personDetections [det_b]))
          = length (tracked tracker2)"
    and "map pid (aged_tracks store0 (tracked tracker2) (personDetections [det_b]))
          = map pid (tracked tracker2)"
    using update_order [of tracker2 "[det_b]" store0] ne by (simp_all add: Let_def)
  then show ?thesis
    using ne by (simp add: call3) (simp add: tracker2_def tracker3_def)
qed

end
